theory Spec2Isabelle
  imports Complex_Main "HOL-Library.AList"
begin

section \<open>Python values shared by the three source files\<close>

text \<open>
  The exceptions the modelled code can raise. A function that can raise returns
  \<open>py_error + 'a\<close>, with \<open>Inl\<close> for the exception.
\<close>

datatype py_error = IndexError | KeyError | TypeError | JSONDecodeError

text \<open>
  A Python \<open>dict\<close> is an association list with distinct keys, in insertion order;
  \<open>d[k] = v\<close> is \<open>AList.update k v d\<close> (an existing key keeps its place, a new
  key goes last) and \<open>d[k]\<close> is \<open>map_of d k\<close>, raising \<open>KeyError\<close> on \<open>None\<close>.
\<close>

section \<open>server\_app.py: the low-level PyTorch server application\<close>

text \<open>
  A state dict maps parameter names to tensors. \<open>np.add\<close> and the division by
  \<open>len(state_dict_list)\<close> act on every entry of a tensor alike, so a tensor is modelled by
  one of its entries, a real number.
\<close>

type_synonym state_dict = "(string \<times> real) list"

datatype MessageType = TRAIN | EVALUATE | QUERY

text \<open>
  \<open>RecordSet\<close> and \<open>Message\<close> of \<open>flwr.common\<close>, with the fields this file reads and
  writes. The type \<open>'p\<close> is \<open>ParametersRecord\<close>; the two conversions of
  \<open>pytorch_example_low_level.utils\<close> between it and a state dict are parameters of the
  functions below.
\<close>

record 'p RecordSet =
  configs_records :: "(string \<times> (string \<times> real) list) list"
  parameters_records :: "(string \<times> 'p) list"

record 'p Message =
  has_error :: bool
  content :: "'p RecordSet"
  message_type :: MessageType
  dst_node_id :: int
  group_id :: string

subsection \<open>aggregate\_parameters\_from\_messages\<close>

text \<open>
  The first loop: messages with an error are skipped, every other message contributes the
  state dict of its \<open>updated_model_dict\<close> record.
\<close>

fun collect_loop ::
  "('p \<Rightarrow> state_dict) \<Rightarrow> state_dict list \<Rightarrow> 'p Message list \<Rightarrow> py_error + state_dict list"
where
  "collect_loop p2sd state_dict_list [] = Inr state_dict_list"
| "collect_loop p2sd state_dict_list (msg # msgs) =
     (if has_error msg then collect_loop p2sd state_dict_list msgs
      else (case map_of (parameters_records (content msg)) ''updated_model_dict'' of
              None \<Rightarrow> Inl KeyError
            | Some state_dict_as_p_record \<Rightarrow>
                collect_loop p2sd (state_dict_list @ [p2sd state_dict_as_p_record]) msgs))"

text \<open>
  \<open>state_dict_list\<close> is a list of references to dict objects, and
  \<open>new_global_dict = state_dict_list[0]\<close> is a second reference to the first of them, not a
  copy. The store of the two accumulation loops is therefore the list of the dicts
  themselves, an object being its position in the list; \<open>new_global_dict\<close> is position 0.
\<close>

abbreviation (input) new_global_dict :: nat where
  "new_global_dict \<equiv> 0"

definition setitem :: "state_dict list \<Rightarrow> nat \<Rightarrow> string \<Rightarrow> real \<Rightarrow> state_dict list" where
  "setitem heap a key v = heap[a := AList.update key v (heap ! a)]"

text \<open>
  The inner loop \<open>for key, value in d.items()\<close>, for the object \<open>d\<close>. The keys of \<open>d\<close>
  do not change while the loop runs (only existing keys of \<open>new_global_dict\<close> are assigned),
  so they are listed once; each value is read from the store when its key is reached.
\<close>

fun add_items :: "state_dict list \<Rightarrow> nat \<Rightarrow> string list \<Rightarrow> py_error + state_dict list" where
  "add_items heap d [] = Inr heap"
| "add_items heap d (key # keys) =
     (case map_of (heap ! d) key of
        None \<Rightarrow> Inl KeyError
      | Some v \<Rightarrow>
          (case map_of (heap ! new_global_dict) key of
             None \<Rightarrow> Inl KeyError
           | Some cur \<Rightarrow> add_items (setitem heap new_global_dict key (cur + v)) d keys))"

text \<open>The outer loop \<open>for d in state_dict_list\<close>, over the positions of the list.\<close>

fun sum_loop :: "state_dict list \<Rightarrow> nat list \<Rightarrow> py_error + state_dict list" where
  "sum_loop heap [] = Inr heap"
| "sum_loop heap (d # ds) =
     (case add_items heap d (map fst (heap ! d)) of
        Inl e \<Rightarrow> Inl e
      | Inr heap' \<Rightarrow> sum_loop heap' ds)"

text \<open>The last loop divides every entry of \<open>new_global_dict\<close> by the number of dicts.\<close>

fun average_loop :: "state_dict \<Rightarrow> nat \<Rightarrow> string list \<Rightarrow> state_dict" where
  "average_loop g n [] = g"
| "average_loop g n (key # keys) =
     (case map_of g key of
        None \<Rightarrow> average_loop g n keys
      | Some v \<Rightarrow> average_loop (AList.update key (v / real n) g) n keys)"

definition aggregate_parameters_from_messages ::
  "('p \<Rightarrow> state_dict) \<Rightarrow> 'p Message list \<Rightarrow> py_error + state_dict"
where
  "aggregate_parameters_from_messages p2sd messages =
     (case collect_loop p2sd [] messages of
        Inl e \<Rightarrow> Inl e
      | Inr state_dict_list \<Rightarrow>
          (case state_dict_list of
             [] \<Rightarrow> Inl IndexError
           | _ # _ \<Rightarrow>
               (case sum_loop state_dict_list [0..<length state_dict_list] of
                  Inl e \<Rightarrow> Inl e
                | Inr heap \<Rightarrow>
                    Inr (average_loop (heap ! new_global_dict) (length state_dict_list)
                           (map fst (heap ! new_global_dict))))))"

text \<open>
  Modelled from the spec: \<open>Driver.create_message\<close> of \<open>flwr.server\<close> is not among the
  sources. It builds the task record from its arguments: the payload, the kind, the
  destination ("a task's \<open>dst\<close> is fixed at creation") and the group label; a new
  message carries no error. It is the \<open>create_message\<close> of the examples.
\<close>

definition Driver_create_message ::
  "'p RecordSet \<Rightarrow> MessageType \<Rightarrow> int \<Rightarrow> string \<Rightarrow> 'p Message"
where
  "Driver_create_message recordset msg_type node_id grp =
     \<lparr>has_error = False, content = recordset, message_type = msg_type,
      dst_node_id = node_id, group_id = grp\<rparr>"

text \<open>A reply that carries the state dict \<open>sd\<close>, and a reply that carries an error.\<close>

definition reply_with :: "state_dict \<Rightarrow> state_dict Message" where
  "reply_with sd =
     \<lparr>has_error = False,
      content = \<lparr>configs_records = [], parameters_records = [(''updated_model_dict'', sd)]\<rparr>,
      message_type = TRAIN, dst_node_id = 0, group_id = ''0''\<rparr>"

definition error_reply :: "state_dict Message" where
  "error_reply =
     \<lparr>has_error = True,
      content = \<lparr>configs_records = [], parameters_records = []\<rparr>,
      message_type = TRAIN, dst_node_id = 0, group_id = ''0''\<rparr>"


text \<open>
  Reading a state dict at a key, and the statement of the aggregation in the words of its
  comments ("accumulate sums", "now take the average"): the arithmetic mean of the values
  that the \<open>k\<close> state dicts hold at a key.
\<close>

definition val :: "state_dict \<Rightarrow> string \<Rightarrow> real" where
  "val d k = (case map_of d k of None \<Rightarrow> 0 | Some v \<Rightarrow> v)"

definition mean_of :: "state_dict list \<Rightarrow> string \<Rightarrow> real" where
  "mean_of state_dict_list k = (\<Sum>d\<leftarrow>state_dict_list. val d k) / real (length state_dict_list)"

subsection \<open>construct\_messages\<close>

text \<open>Python's \<open>str\<close> on an integer: decimal digits, with a minus sign when negative.\<close>

definition digit_char :: "nat \<Rightarrow> char" where
  "digit_char d = ''0123456789'' ! d"

function str_nat :: "nat \<Rightarrow> string" where
  "str_nat n = (if n < 10 then [digit_char n] else str_nat (n div 10) @ [digit_char (n mod 10)])"
  by pat_completeness auto
termination
  by (relation "measure id") auto

declare str_nat.simps [simp del]

definition str_int :: "int \<Rightarrow> string" where
  "str_int i = (if i < 0 then CHR ''-'' # str_nat (nat (- i)) else str_nat (nat i))"

text \<open>
  \<open>construct_messages\<close>. Two collaborators are parameters: the conversion
  \<open>state_dict_to_parameters_record\<close> of \<open>utils\<close>, and the method \<open>create_message\<close> of the
  driver, which is called with \<open>content\<close>, \<open>message_type\<close>, \<open>dst_node_id\<close> and
  \<open>group_id\<close>, in this order here. \<open>global_model\<close> stands for
  \<open>global_model.state_dict()\<close>.
\<close>

definition construct_messages ::
  "(state_dict \<Rightarrow> 'p) \<Rightarrow> ('p RecordSet \<Rightarrow> MessageType \<Rightarrow> int \<Rightarrow> string \<Rightarrow> 'm)
     \<Rightarrow> state_dict \<Rightarrow> int list \<Rightarrow> MessageType \<Rightarrow> int \<Rightarrow> 'm list"
where
  "construct_messages sd2p create_message global_model node_ids msg_type server_round =
     (let p_record = sd2p global_model;
          lr = (if server_round < 10 then 0.1 else 0.1 / 2);
          c_record = [(''lr'', lr)];
          recordset = \<lparr>configs_records = [(''config'', c_record)],
                       parameters_records = [(''global_model_record'', p_record)]\<rparr>
      in map (\<lambda>node_id. create_message recordset msg_type node_id (str_int server_round))
           node_ids)"

subsection \<open>main\<close>

text \<open>
  The collaborators of \<open>main\<close> that are not in this file: the two methods of the driver
  it calls, acting on a driver state \<open>'d\<close>, the two conversions of \<open>utils\<close>, and the
  state dict of a new \<open>Net()\<close>.
\<close>

record ('d, 'p) collaborators =
  get_node_ids :: "'d \<Rightarrow> int list \<times> 'd"
  send_and_receive :: "'d \<Rightarrow> 'p Message list \<Rightarrow> 'p Message list \<times> 'd"
  create_message :: "'p RecordSet \<Rightarrow> MessageType \<Rightarrow> int \<Rightarrow> string \<Rightarrow> 'p Message"
  state_dict_to_parameters_record :: "state_dict \<Rightarrow> 'p"
  parameters_record_to_state_dict :: "'p \<Rightarrow> state_dict"
  Net :: state_dict

text \<open>
  What \<open>main\<close> does to the outside is recorded as a trace: one event per call, in the order
  of the calls, each with the round it belongs to.
\<close>

datatype event =
    GetNodeIds nat
  | ConstructMessages nat
  | SendAndReceiveCall nat
  | SendAndReceiveReturn nat
  | Aggregate nat
  | LoadStateDict nat
  | CentralTest nat

record 'd main_state =
  driver :: 'd
  global_model :: state_dict
  trace :: "event list"

definition emit :: "event \<Rightarrow> 'd main_state \<Rightarrow> 'd main_state" where
  "emit e s = s\<lparr>trace := trace s @ [e]\<rparr>"

definition do_get_node_ids ::
  "('d, 'p) collaborators \<Rightarrow> nat \<Rightarrow> 'd main_state \<Rightarrow> int list \<times> 'd main_state"
where
  "do_get_node_ids X r s =
     (case get_node_ids X (driver s) of
        (node_ids, d') \<Rightarrow> (node_ids, emit (GetNodeIds r) (s\<lparr>driver := d'\<rparr>)))"

definition do_construct_messages ::
  "('d, 'p) collaborators \<Rightarrow> nat \<Rightarrow> int list \<Rightarrow> 'd main_state \<Rightarrow> 'p Message list \<times> 'd main_state"
where
  "do_construct_messages X r node_ids s =
     (construct_messages (state_dict_to_parameters_record X) (create_message X) (global_model s)
        node_ids TRAIN (int r),
      emit (ConstructMessages r) s)"

definition do_send_and_receive ::
  "('d, 'p) collaborators \<Rightarrow> nat \<Rightarrow> 'p Message list \<Rightarrow> 'd main_state \<Rightarrow> 'p Message list \<times> 'd main_state"
where
  "do_send_and_receive X r messages s =
     (case send_and_receive X (driver (emit (SendAndReceiveCall r) s)) messages of
        (replies, d') \<Rightarrow>
          (replies, emit (SendAndReceiveReturn r) ((emit (SendAndReceiveCall r) s)\<lparr>driver := d'\<rparr>)))"

text \<open>
  The loop \<open>for server_round in range(num_rounds)\<close>. An exception of the aggregation leaves
  the loop and \<open>main\<close>; the state at that point is returned with it.
\<close>

function round_loop ::
  "('d, 'p) collaborators \<Rightarrow> nat \<Rightarrow> nat \<Rightarrow> 'd main_state \<Rightarrow> py_error option \<times> 'd main_state"
where
  "round_loop X server_round num_rounds s =
     (if server_round < num_rounds then
        (case do_get_node_ids X server_round s of
           (node_ids, s1) \<Rightarrow>
             (case do_construct_messages X server_round node_ids s1 of
                (messages, s2) \<Rightarrow>
                  (case do_send_and_receive X server_round messages s2 of
                     (replies, s3) \<Rightarrow>
                       (case aggregate_parameters_from_messages
                               (parameters_record_to_state_dict X) replies of
                          Inl e \<Rightarrow> (Some e, emit (Aggregate server_round) s3)
                        | Inr updated_global_state_dict \<Rightarrow>
                            round_loop X (Suc server_round) num_rounds
                              (emit (CentralTest server_round)
                                (emit (LoadStateDict server_round)
                                  ((emit (Aggregate server_round) s3)
                                     \<lparr>global_model := updated_global_state_dict\<rparr>)))))))
      else (None, s))"
  by pat_completeness auto
termination
  by (relation "measure (\<lambda>(X, server_round, num_rounds, s). num_rounds - server_round)") auto

declare round_loop.simps [simp del]

text \<open>
  \<open>main\<close> reads three entries of \<open>context.run_config\<close>, each lookup raising
  \<open>KeyError\<close> when the entry is missing; \<open>range(num_rounds)\<close> needs an integer and is
  empty for a negative one.
\<close>

datatype config_value = IntValue int | StrValue string

definition main ::
  "('d, 'p) collaborators \<Rightarrow> 'd \<Rightarrow> (string \<times> config_value) list
     \<Rightarrow> py_error option \<times> 'd main_state"
where
  "main X drv run_config =
     (let s0 = \<lparr>driver = drv, global_model = Net X, trace = []\<rparr> in
      case map_of run_config ''num-server-rounds'' of
        None \<Rightarrow> (Some KeyError, s0)
      | Some num_rounds \<Rightarrow>
          (case map_of run_config ''batch-size'' of
             None \<Rightarrow> (Some KeyError, s0)
           | Some batch_size \<Rightarrow>
               (case map_of run_config ''server-device'' of
                  None \<Rightarrow> (Some KeyError, s0)
                | Some server_device \<Rightarrow>
                    (case num_rounds of
                       StrValue _ \<Rightarrow> (Some TypeError, s0)
                     | IntValue n \<Rightarrow> round_loop X 0 (nat n) s0))))"

definition example_config :: "(string \<times> config_value) list" where
  "example_config =
     [(''num-server-rounds'', IntValue 2), (''batch-size'', IntValue 32),
      (''server-device'', StrValue ''cpu'')]"

text \<open>
  A driver for examples: its state is the list of the replies still to come, one list of
  replies per round; it knows the nodes 11 and 12.
\<close>

definition scripted :: "(state_dict Message list list, state_dict) collaborators" where
  "scripted =
     \<lparr>get_node_ids = (\<lambda>d. ([11, 12], d)),
      send_and_receive = (\<lambda>d messages. (case d of [] \<Rightarrow> ([], []) | r # rs \<Rightarrow> (r, rs))),
      create_message = Driver_create_message,
      state_dict_to_parameters_record = id,
      parameters_record_to_state_dict = id,
      Net = [(''w'', 0)]\<rparr>"

text \<open>A run of two rounds; in the second round one of the two nodes replies with an error.\<close>

definition example_run :: "py_error option \<times> state_dict Message list list main_state" where
  "example_run =
     main scripted [[reply_with [(''w'', 1)]], [reply_with [(''w'', 3)], error_reply]] example_config"

text \<open>
  No pipelining of rounds, as a property of a trace: wherever the messages of round
  \<open>n + 1\<close> are constructed, the rendezvous of round \<open>n\<close> has returned before.
\<close>

definition ordered :: "event list \<Rightarrow> bool" where
  "ordered tr \<longleftrightarrow>
     (\<forall>i n. i < length tr \<and> tr ! i = ConstructMessages (Suc n)
        \<longrightarrow> (\<exists>j<i. tr ! j = SendAndReceiveReturn n))"

section \<open>vce\_api.py: the Fleet API of the virtual client engine\<close>

text \<open>
  \<open>NodeToPartitionMapping = Dict[int, int]\<close>. The state of the \<open>StateFactory\<close> is of
  a type \<open>'s\<close>, and its method \<open>create_node\<close>, which is not in this file, is a parameter:
  it returns the new node id and the state with the node registered.
\<close>

type_synonym NodeToPartitionMapping = "(int \<times> int) list"

definition py_range :: "int \<Rightarrow> int list" where
  "py_range n = map int [0..<nat n]"

fun register_loop ::
  "('s \<Rightarrow> int \<times> 's) \<Rightarrow> int list \<Rightarrow> 's \<Rightarrow> NodeToPartitionMapping
     \<Rightarrow> NodeToPartitionMapping \<times> 's"
where
  "register_loop create_node [] state nodes_mapping = (nodes_mapping, state)"
| "register_loop create_node (i # rest) state nodes_mapping =
     (case create_node state of
        (node_id, state') \<Rightarrow>
          register_loop create_node rest state' (AList.update node_id i nodes_mapping))"

definition register_nodes ::
  "('s \<Rightarrow> int \<times> 's) \<Rightarrow> int \<Rightarrow> 's \<Rightarrow> NodeToPartitionMapping \<times> 's"
where
  "register_nodes create_node num_nodes state =
     register_loop create_node (py_range num_nodes) state []"

text \<open>
  The node ids that \<open>n\<close> successive calls of \<open>create_node\<close> return, and the state they
  leave.
\<close>

fun created_ids :: "('s \<Rightarrow> int \<times> 's) \<Rightarrow> nat \<Rightarrow> 's \<Rightarrow> int list" where
  "created_ids create_node 0 state = []"
| "created_ids create_node (Suc n) state =
     (case create_node state of
        (node_id, state') \<Rightarrow> node_id # created_ids create_node n state')"

fun state_after :: "('s \<Rightarrow> int \<times> 's) \<Rightarrow> nat \<Rightarrow> 's \<Rightarrow> 's" where
  "state_after create_node 0 state = state"
| "state_after create_node (Suc n) state =
     (case create_node state of (node_id, state') \<Rightarrow> state_after create_node n state')"

text \<open>
  \<open>NodeState()\<close> constructs a new object. The objects live in a store, a list in which
  an object is its position; \<open>node_states\<close> maps a node id to a reference into the store.
  A new \<open>NodeState\<close> holds no run context.
\<close>

record NodeState =
  run_contexts :: "(int \<times> string) list"

definition new_NodeState :: "NodeState list \<Rightarrow> nat \<times> NodeState list" where
  "new_NodeState store = (length store, store @ [\<lparr>run_contexts = []\<rparr>])"

fun node_states_loop ::
  "int list \<Rightarrow> NodeState list \<Rightarrow> (int \<times> nat) list \<Rightarrow> (int \<times> nat) list \<times> NodeState list"
where
  "node_states_loop [] store node_states = (node_states, store)"
| "node_states_loop (node_id # rest) store node_states =
     (case new_NodeState store of
        (ref, store') \<Rightarrow> node_states_loop rest store' (AList.update node_id ref node_states))"

text \<open>
  \<open>start_vce\<close>, to the end of the file. \<open>json.loads\<close> is a parameter, \<open>None\<close> standing for
  \<open>JSONDecodeError\<close>. The function returns nothing; the model returns, with the exception
  if there is one, the state and the local variables as they are when it returns or raises.
\<close>

record 's vce_outcome =
  raised :: "py_error option"
  state_of :: 's
  nodes_mapping_of :: NodeToPartitionMapping
  node_states_of :: "(int \<times> nat) list"
  store_of :: "NodeState list"

definition start_vce ::
  "('s \<Rightarrow> int \<times> 's) \<Rightarrow> (string \<Rightarrow> 'j option) \<Rightarrow> int \<Rightarrow> string \<Rightarrow> string \<Rightarrow> string \<Rightarrow> 's
     \<Rightarrow> string \<Rightarrow> NodeState list \<Rightarrow> 's vce_outcome"
where
  "start_vce create_node json_loads num_supernodes client_app_str backend_str
     backend_config_json_str state working_dir store =
     (case register_nodes create_node num_supernodes state of
        (nodes_mapping, state') \<Rightarrow>
          (case node_states_loop (map fst nodes_mapping) store [] of
             (node_states, store') \<Rightarrow>
               \<lparr>raised = (case json_loads backend_config_json_str of
                             None \<Rightarrow> Some JSONDecodeError
                           | Some _ \<Rightarrow> None),
                state_of = state', nodes_mapping_of = nodes_mapping,
                node_states_of = node_states, store_of = store'\<rparr>))"

text \<open>
  Modelled from the spec: the node registry behind \<open>create_node\<close> is not among the
  sources. \<open>register() -> node_id\<close> "allocates a fresh unique identifier, inserts
  \<open>Node{online=true}\<close>", here with a monotonic counter. It serves as the example state.
\<close>

record registry =
  next_id :: int
  nodes :: "(int \<times> bool) list"

definition registry_create_node :: "registry \<Rightarrow> int \<times> registry" where
  "registry_create_node r =
     (next_id r, r\<lparr>next_id := next_id r + 1, nodes := nodes r @ [(next_id r, True)]\<rparr>)"

text \<open>An example parser that accepts the empty JSON object only.\<close>

definition example_json_loads :: "string \<Rightarrow> unit option" where
  "example_json_loads s = (if s = ''{}'' then Some () else None)"

section \<open>build-docker-image-matrix.py: the matrix of Docker images\<close>

datatype DistroName = ALPINE | UBUNTU

fun DistroName_value :: "DistroName \<Rightarrow> string" where
  "DistroName_value ALPINE = ''alpine''"
| "DistroName_value UBUNTU = ''ubuntu''"

record Distro =
  name :: DistroName
  version :: string

definition LATEST_SUPPORTED_PYTHON_VERSION :: string where
  "LATEST_SUPPORTED_PYTHON_VERSION = ''3.11''"

definition SUPPORTED_PYTHON_VERSIONS :: "string list" where
  "SUPPORTED_PYTHON_VERSIONS = [''3.9'', ''3.10'', LATEST_SUPPORTED_PYTHON_VERSION]"

definition DOCKERFILE_ROOT :: string where
  "DOCKERFILE_ROOT = ''src/docker''"

text \<open>
  The two classes of a variant's \<open>extra\<close>; \<open>isinstance(extra, CpuVariant)\<close> is
  \<open>extra = Some CpuVariant\<close>, the field being \<open>None\<close> by default.
\<close>

datatype VariantExtra = CpuVariant | CudaVariant string

record Variant =
  distro :: Distro
  file_dir_fn :: "Distro \<Rightarrow> VariantExtra option \<Rightarrow> string"
  tag_fn :: "Distro \<Rightarrow> string \<Rightarrow> string \<Rightarrow> VariantExtra option \<Rightarrow> string"
  extra :: "VariantExtra option"

definition Variant_file_dir :: "Variant \<Rightarrow> string" where
  "Variant_file_dir self = file_dir_fn self (distro self) (extra self)"

definition Variant_tag :: "Variant \<Rightarrow> string \<Rightarrow> string \<Rightarrow> string" where
  "Variant_tag self flwr_version python_version =
     tag_fn self (distro self) flwr_version python_version (extra self)"

definition LATEST_SUPPORTED_CUDA_VERSIONS :: string where
  "LATEST_SUPPORTED_CUDA_VERSIONS = ''12.4''"

definition CUDA_VERSIONS :: "string list" where
  "CUDA_VERSIONS = [''11.2'', ''11.8'', ''12.1'', ''12.3'', LATEST_SUPPORTED_CUDA_VERSIONS]"

definition base_file_dir :: "Distro \<Rightarrow> VariantExtra option \<Rightarrow> string" where
  "base_file_dir d _ = DOCKERFILE_ROOT @ ''/base/'' @ DistroName_value (name d)"

definition base_tag :: "Distro \<Rightarrow> string \<Rightarrow> string \<Rightarrow> VariantExtra option \<Rightarrow> string" where
  "base_tag d flwr_version python_version _ =
     flwr_version @ ''-py'' @ python_version @ ''-'' @ DistroName_value (name d) @ version d"

definition UBUNTU_VARIANTS :: "Variant list" where
  "UBUNTU_VARIANTS =
     [\<lparr>distro = \<lparr>name = UBUNTU, version = ''24.04''\<rparr>,
       file_dir_fn = base_file_dir, tag_fn = base_tag, extra = Some CpuVariant\<rparr>]"

definition ALPINE_VARIANTS :: "Variant list" where
  "ALPINE_VARIANTS =
     [\<lparr>distro = \<lparr>name = ALPINE, version = ''3.19''\<rparr>,
       file_dir_fn = base_file_dir, tag_fn = base_tag, extra = Some CpuVariant\<rparr>]"

text \<open>
  The tag of a CUDA variant reads \<open>extra.version\<close>, which exists on a \<open>CudaVariant\<close>
  only; the CUDA variants all carry one.
\<close>

definition cuda_file_dir :: "Distro \<Rightarrow> VariantExtra option \<Rightarrow> string" where
  "cuda_file_dir d _ = DOCKERFILE_ROOT @ ''/base/'' @ DistroName_value (name d) @ ''-cuda''"

definition cuda_tag :: "Distro \<Rightarrow> string \<Rightarrow> string \<Rightarrow> VariantExtra option \<Rightarrow> string" where
  "cuda_tag d flwr_version python_version ex =
     flwr_version @ ''-py'' @ python_version @ ''-cu''
       @ (case ex of Some (CudaVariant v) \<Rightarrow> v | _ \<Rightarrow> [])
       @ ''-'' @ DistroName_value (name d) @ version d"

definition CUDA_VARIANTS :: "Variant list" where
  "CUDA_VARIANTS =
     map (\<lambda>v. \<lparr>distro = \<lparr>name = UBUNTU, version = ''24.04''\<rparr>,
                file_dir_fn = cuda_file_dir, tag_fn = cuda_tag, extra = Some (CudaVariant v)\<rparr>)
       CUDA_VERSIONS"

record BaseImage =
  variant :: Variant
  python_version :: string
  namespace_repository :: string
  file_dir :: string
  tag :: string
  flwr_version :: string

definition new_base_image :: "string \<Rightarrow> string \<Rightarrow> Variant \<Rightarrow> BaseImage" where
  "new_base_image flwr_ver python_ver var =
     \<lparr>variant = var, python_version = python_ver, namespace_repository = ''flwr/base'',
      file_dir = Variant_file_dir var, tag = Variant_tag var flwr_ver python_ver,
      flwr_version = flwr_ver\<rparr>"

definition generate_base_images :: "string \<Rightarrow> string list \<Rightarrow> Variant list \<Rightarrow> BaseImage list" where
  "generate_base_images flwr_ver python_versions variants =
     concat (map (\<lambda>var. map (\<lambda>python_ver. new_base_image flwr_ver python_ver var)
                          python_versions) variants)"

record BinaryImage =
  binary_namespace_repository :: string
  binary_file_dir :: string
  base_image :: string
  tags :: string

text \<open>\<open>"\n".join(tags)\<close>.\<close>

fun join_lines :: "string list \<Rightarrow> string" where
  "join_lines [] = []"
| "join_lines [t] = t"
| "join_lines (t # ts) = t @ [CHR 0x0A] @ join_lines ts"

definition new_binary_image ::
  "string \<Rightarrow> BaseImage \<Rightarrow> (BaseImage \<Rightarrow> string list) option \<Rightarrow> BinaryImage"
where
  "new_binary_image nm img tags_fn =
     (let tgs = (case tags_fn of None \<Rightarrow> [] | Some f \<Rightarrow> [] @ f img) in
      \<lparr>binary_namespace_repository = ''flwr/'' @ nm,
       binary_file_dir = DOCKERFILE_ROOT @ ''/'' @ nm,
       base_image = tag img,
       tags = join_lines tgs\<rparr>)"

text \<open>
  What a filter returns is tested for truth by the comprehension, and the filters are built
  with \<open>and\<close> and \<open>or\<close>, which return one of their operands: the values are Booleans and
  tuples. A tuple is true unless it is empty.
\<close>

datatype pyval = PyBool bool | PyTuple "pyval list"

fun truthy :: "pyval \<Rightarrow> bool" where
  "truthy (PyBool b) = b"
| "truthy (PyTuple xs) = (xs \<noteq> [])"

definition py_and :: "pyval \<Rightarrow> pyval \<Rightarrow> pyval" where
  "py_and a b = (if truthy a then b else a)"

definition py_or :: "pyval \<Rightarrow> pyval \<Rightarrow> pyval" where
  "py_or a b = (if truthy a then a else b)"

definition generate_binary_images ::
  "string \<Rightarrow> BaseImage list \<Rightarrow> (BaseImage \<Rightarrow> string list) option
     \<Rightarrow> (BaseImage \<Rightarrow> pyval) option \<Rightarrow> BinaryImage list"
where
  "generate_binary_images nm base_images tags_fn filter_fn =
     (let flt = (case filter_fn of None \<Rightarrow> (\<lambda>_. PyBool True) | Some f \<Rightarrow> f) in
      map (\<lambda>img. new_binary_image nm img tags_fn)
        (filter (\<lambda>img. truthy (flt img)) base_images))"

definition tag_latest_alpine_with_flwr_version :: "BaseImage \<Rightarrow> string list" where
  "tag_latest_alpine_with_flwr_version img =
     (if name (distro (variant img)) = ALPINE
         \<and> python_version img = LATEST_SUPPORTED_PYTHON_VERSION
      then [tag img, flwr_version img]
      else [tag img])"

definition tag_latest_ubuntu_with_flwr_version :: "BaseImage \<Rightarrow> string list" where
  "tag_latest_ubuntu_with_flwr_version img =
     (if name (distro (variant img)) = UBUNTU
         \<and> python_version img = LATEST_SUPPORTED_PYTHON_VERSION
         \<and> extra (variant img) = Some CpuVariant
      then [tag img, flwr_version img]
      else [tag img])"

text \<open>The script: the base images, and the filters of the five kinds of binary images.\<close>

definition base_images_of :: "string \<Rightarrow> BaseImage list" where
  "base_images_of flwr_ver =
     generate_base_images flwr_ver SUPPORTED_PYTHON_VERSIONS UBUNTU_VARIANTS
     @ generate_base_images flwr_ver [LATEST_SUPPORTED_PYTHON_VERSION] ALPINE_VARIANTS
     @ generate_base_images flwr_ver SUPPORTED_PYTHON_VERSIONS CUDA_VARIANTS"

definition superlink_filter :: "BaseImage \<Rightarrow> pyval" where
  "superlink_filter img =
     py_and (PyBool (python_version img = LATEST_SUPPORTED_PYTHON_VERSION))
            (PyBool (extra (variant img) = Some CpuVariant))"

text \<open>
  The filter of the supernode images: the left operand of \<open>or\<close> is written with a
  trailing comma inside its parentheses, which makes it a tuple of one element.
\<close>

definition supernode_filter :: "BaseImage \<Rightarrow> pyval" where
  "supernode_filter img =
     py_or (PyTuple [py_and (PyBool (name (distro (variant img)) = UBUNTU))
                            (PyBool (extra (variant img) = Some CpuVariant))])
           (py_and (PyBool (name (distro (variant img)) = ALPINE))
                   (PyBool (python_version img = LATEST_SUPPORTED_PYTHON_VERSION)))"

definition ubuntu_filter :: "BaseImage \<Rightarrow> pyval" where
  "ubuntu_filter img = PyBool (name (distro (variant img)) = UBUNTU)"

definition ubuntu_cpu_filter :: "BaseImage \<Rightarrow> pyval" where
  "ubuntu_cpu_filter img =
     py_and (PyBool (name (distro (variant img)) = UBUNTU))
            (PyBool (extra (variant img) = Some CpuVariant))"

definition supernode_images :: "string \<Rightarrow> BinaryImage list" where
  "supernode_images flwr_ver =
     generate_binary_images ''supernode'' (base_images_of flwr_ver)
       (Some tag_latest_alpine_with_flwr_version) (Some supernode_filter)"

definition binary_images :: "string \<Rightarrow> BinaryImage list" where
  "binary_images flwr_ver =
     generate_binary_images ''superlink'' (base_images_of flwr_ver)
       (Some tag_latest_alpine_with_flwr_version) (Some superlink_filter)
     @ supernode_images flwr_ver
     @ generate_binary_images ''serverapp'' (base_images_of flwr_ver)
         (Some tag_latest_ubuntu_with_flwr_version) (Some ubuntu_filter)
     @ generate_binary_images ''superexec'' (base_images_of flwr_ver)
         (Some tag_latest_ubuntu_with_flwr_version) (Some ubuntu_cpu_filter)
     @ generate_binary_images ''clientapp'' (base_images_of flwr_ver)
         (Some tag_latest_ubuntu_with_flwr_version) (Some ubuntu_filter)"

section \<open>The coordinator's rendezvous\<close>

text \<open>
  Modelled from the spec: \<open>Driver.send_and_receive\<close> and the task store behind it are not
  among the sources; \<open>main\<close> only calls the method. The definitions of this section follow
  the words of the specification (its data model, the contract of the task store and the
  three steps of the rendezvous protocol). The specification's \<open>send_and_receive\<close> is
  \<open>rendezvous\<close> below.
\<close>

datatype task_status = Pending | InFlight | Replied | Errored | TimedOut

text \<open>A reply "carries either a result payload or an error marker plus human-readable cause".\<close>

datatype reply = Result string | Failure string

record task =
  run_id :: nat
  task_group :: string
  task_dst :: int
  kind :: MessageType
  payload :: string
  created_at :: nat
  ttl :: nat
  status :: task_status
  task_reply :: "reply option"

text \<open>
  Modelled from the spec: the task store, a ledger of tasks. The unique identifier of a task
  is its position in the ledger, so that a new task always gets a fresh one.
\<close>

type_synonym task_store = "task list"

definition terminal :: "task_status \<Rightarrow> bool" where
  "terminal s = (s = Replied \<or> s = Errored \<or> s = TimedOut)"

definition create_task ::
  "task_store \<Rightarrow> nat \<Rightarrow> string \<Rightarrow> int \<Rightarrow> MessageType \<Rightarrow> string \<Rightarrow> nat \<Rightarrow> nat
     \<Rightarrow> nat \<times> task_store"
where
  "create_task st run grp dst k p t now =
     (length st,
      st @ [\<lparr>run_id = run, task_group = grp, task_dst = dst, kind = k, payload = p,
              created_at = now, ttl = t, status = Pending, task_reply = None\<rparr>])"

text \<open>
  Modelled from the spec: "all status transitions are compare-and-swap on the prior status;
  a transition from a non-expected prior status fails silently".
\<close>

definition transition :: "task_store \<Rightarrow> nat \<Rightarrow> task_status \<Rightarrow> task_status \<Rightarrow> task_store" where
  "transition st tid expected new =
     (if tid < length st \<and> status (st ! tid) = expected
      then st[tid := (st ! tid)\<lparr>status := new\<rparr>]
      else st)"

definition pending_for :: "task_store \<Rightarrow> int \<Rightarrow> nat list" where
  "pending_for st node =
     filter (\<lambda>tid. task_dst (st ! tid) = node \<and> status (st ! tid) = Pending) [0..<length st]"

definition pull_pending :: "task_store \<Rightarrow> int \<Rightarrow> nat list \<times> task_store" where
  "pull_pending st node =
     (pending_for st node,
      fold (\<lambda>tid s. transition s tid Pending InFlight) (pending_for st node) st)"

definition submit_reply :: "task_store \<Rightarrow> nat \<Rightarrow> reply \<Rightarrow> bool \<times> task_store" where
  "submit_reply st tid r =
     (if tid < length st \<and> status (st ! tid) = InFlight
      then (True,
            st[tid := (st ! tid)\<lparr>status := (case r of Result _ \<Rightarrow> Replied | Failure _ \<Rightarrow> Errored),
                                 task_reply := Some r\<rparr>])
      else (False, st))"

definition expired :: "nat \<Rightarrow> task \<Rightarrow> bool" where
  "expired now t = ((status t = Pending \<or> status t = InFlight) \<and> created_at t + ttl t < now)"

definition reap_expired :: "task_store \<Rightarrow> nat \<Rightarrow> nat \<times> task_store" where
  "reap_expired st now =
     (length (filter (expired now) st),
      map (\<lambda>t. if expired now t then t\<lparr>status := TimedOut\<rparr> else t) st)"

text \<open>
  Modelled from the spec: what the participants do while the coordinator waits. One action
  is taken per tick of the clock: a node pulls its pending tasks, or a reply is submitted
  for a task.
\<close>

datatype action = Pull int | Submit nat reply

fun apply_action :: "action \<Rightarrow> task_store \<Rightarrow> task_store" where
  "apply_action (Pull node) st = snd (pull_pending st node)"
| "apply_action (Submit tid r) st = snd (submit_reply st tid r)"

record request =
  req_run :: nat
  req_group :: string
  req_dst :: int
  req_kind :: MessageType
  req_payload :: string

text \<open>
  Modelled from the spec, step 1: all tasks of the call are created as one group. Creating a
  task always succeeds, so there is nothing to roll back.
\<close>

fun create_all :: "task_store \<Rightarrow> request list \<Rightarrow> nat \<Rightarrow> nat \<Rightarrow> nat list \<times> task_store" where
  "create_all st [] timeout now = ([], st)"
| "create_all st (rq # rqs) timeout now =
     (case create_task st (req_run rq) (req_group rq) (req_dst rq) (req_kind rq)
             (req_payload rq) timeout now of
        (tid, st') \<Rightarrow>
          (case create_all st' rqs timeout now of (tids, st'') \<Rightarrow> (tid # tids, st'')))"

text \<open>
  Modelled from the spec, step 2: "poll until every task in the group reaches a terminal
  status or \<open>timeout\<close> elapses", reaping expired tasks during the wait. The third argument
  is the time left.
\<close>

fun poll :: "nat list \<Rightarrow> nat \<Rightarrow> nat \<Rightarrow> action list \<Rightarrow> task_store \<Rightarrow> task_store" where
  "poll tids now 0 acts st = st"
| "poll tids now (Suc left) acts st =
     (let st1 = snd (reap_expired st now) in
      if list_all (\<lambda>tid. terminal (status (st1 ! tid))) tids then st1
      else (case acts of
              [] \<Rightarrow> poll tids (Suc now) left [] st1
            | a # rest \<Rightarrow> poll tids (Suc now) left rest (apply_action a st1)))"

text \<open>
  Modelled from the spec, step 3: "tasks still \<open>Pending\<close>/\<open>InFlight\<close> at timeout are forced
  to \<open>TimedOut\<close> and reported as absent", and one reply-or-absence is returned per requested
  task, in the order of the requests.
\<close>

definition force_timeout :: "nat list \<Rightarrow> task_store \<Rightarrow> task_store" where
  "force_timeout tids st =
     fold (\<lambda>tid s. transition (transition s tid Pending TimedOut) tid InFlight TimedOut) tids st"

datatype rendezvous_entry = ReplyEntry reply | Absence

definition entry_of :: "task \<Rightarrow> rendezvous_entry" where
  "entry_of t =
     (if status t = Replied \<or> status t = Errored
      then (case task_reply t of None \<Rightarrow> Absence | Some r \<Rightarrow> ReplyEntry r)
      else Absence)"

definition rendezvous ::
  "task_store \<Rightarrow> request list \<Rightarrow> nat \<Rightarrow> nat \<Rightarrow> action list \<Rightarrow> rendezvous_entry list \<times> task_store"
where
  "rendezvous st requests timeout now acts =
     (case create_all st requests timeout now of
        (tids, st1) \<Rightarrow>
          (let st3 = force_timeout tids (poll tids now timeout acts st1)
           in (map (\<lambda>tid. entry_of (st3 ! tid)) tids, st3)))"

text \<open>
  The scenario of the specification: one round \<open>r1\<close> of three tasks, to the nodes 1, 2 and 3;
  two nodes pull and reply, the third never pulls.
\<close>

definition r1_requests :: "request list" where
  "r1_requests =
     map (\<lambda>n. \<lparr>req_run = 1, req_group = ''r1'', req_dst = n, req_kind = TRAIN,
                req_payload = ''p''\<rparr>) [1, 2, 3]"

definition r1_actions :: "action list" where
  "r1_actions = [Pull 2, Pull 1, Submit 1 (Result ''b''), Submit 0 (Result ''a'')]"

text \<open>
  The task a request becomes when it is created, the number of tasks that hold an accepted
  reply, and the tasks of the scenario.
\<close>

definition fresh_task :: "nat \<Rightarrow> nat \<Rightarrow> request \<Rightarrow> task" where
  "fresh_task timeout now rq =
     \<lparr>run_id = req_run rq, task_group = req_group rq, task_dst = req_dst rq, kind = req_kind rq,
      payload = req_payload rq, created_at = now, ttl = timeout, status = Pending,
      task_reply = None\<rparr>"

definition replied_in :: "task_store \<Rightarrow> nat list \<Rightarrow> nat" where
  "replied_in st tids =
     length (filter (\<lambda>tid. status (st ! tid) = Replied \<or> status (st ! tid) = Errored) tids)"

definition r1_task :: "int \<Rightarrow> task_status \<Rightarrow> reply option \<Rightarrow> task" where
  "r1_task d s r =
     \<lparr>run_id = 1, task_group = ''r1'', task_dst = d, kind = TRAIN, payload = ''p'',
      created_at = 0, ttl = 6, status = s, task_reply = r\<rparr>"

text \<open>
  Two notions for the proofs. A task is consistent when it holds a reply exactly if its
  status is \<open>Replied\<close> or \<open>Errored\<close>. A store evolves into another when no task is
  added or removed, no task changes its destination or its group, and consistent tasks
  stay consistent.
\<close>

definition consistent :: "task \<Rightarrow> bool" where
  "consistent t = ((status t = Replied \<or> status t = Errored) = (task_reply t \<noteq> None))"

definition evolves :: "task_store \<Rightarrow> task_store \<Rightarrow> bool" where
  "evolves st st' \<longleftrightarrow>
     length st' = length st
     \<and> (\<forall>i < length st. task_dst (st' ! i) = task_dst (st ! i)
            \<and> task_group (st' ! i) = task_group (st ! i)
            \<and> (consistent (st ! i) \<longrightarrow> consistent (st' ! i)))"

text \<open>
  Modelled from the spec: what it means that the participant a task is addressed to replies
  to it during a wait, told from the participants' actions alone. The node pulls its pending
  tasks, which delivers the task, and afterwards a reply for the task is submitted; the first
  such reply is the one accepted ("exactly one reply is ever accepted per task"), and a reply
  submitted before the task was pulled is rejected. \<open>pulled\<close> says whether the node has
  pulled already.
\<close>

fun participant_reply :: "int \<Rightarrow> nat \<Rightarrow> bool \<Rightarrow> action list \<Rightarrow> reply option" where
  "participant_reply d tid pulled [] = None"
| "participant_reply d tid pulled (Pull node # acts) =
     participant_reply d tid (pulled \<or> node = d) acts"
| "participant_reply d tid pulled (Submit t r # acts) =
     (if t = tid \<and> pulled then Some r else participant_reply d tid pulled acts)"

text \<open>
  The reply that the participant of the \<open>i\<close>-th request gives within the timeout, one
  action being taken per tick, and the number of requests whose participant replies within
  the timeout.
\<close>

definition reply_within :: "task_store \<Rightarrow> request list \<Rightarrow> nat \<Rightarrow> action list \<Rightarrow> nat \<Rightarrow> reply option" where
  "reply_within st requests timeout acts i =
     participant_reply (req_dst (requests ! i)) (length st + i) False (take timeout acts)"

definition replies_within :: "task_store \<Rightarrow> request list \<Rightarrow> nat \<Rightarrow> action list \<Rightarrow> nat" where
  "replies_within st requests timeout acts =
     length (filter (\<lambda>i. reply_within st requests timeout acts i \<noteq> None) [0..<length requests])"

text \<open>The entry and the final status that belong to a reply, or to its absence.\<close>

fun entry_for :: "reply option \<Rightarrow> rendezvous_entry" where
  "entry_for None = Absence"
| "entry_for (Some r) = ReplyEntry r"

fun status_for :: "reply option \<Rightarrow> task_status" where
  "status_for None = TimedOut"
| "status_for (Some (Result p)) = Replied"
| "status_for (Some (Failure c)) = Errored"

text \<open>
  For the proofs: what one action does to the task with identifier \<open>tid\<close>, and what a
  sequence of actions does to it.
\<close>

fun task_step :: "action \<Rightarrow> nat \<Rightarrow> task \<Rightarrow> task" where
  "task_step (Pull node) tid t =
     (if task_dst t = node \<and> status t = Pending then t\<lparr>status := InFlight\<rparr> else t)"
| "task_step (Submit x r) tid t =
     (if x = tid \<and> status t = InFlight
      then t\<lparr>status := (case r of Result _ \<Rightarrow> Replied | Failure _ \<Rightarrow> Errored), task_reply := Some r\<rparr>
      else t)"

definition run_task :: "nat \<Rightarrow> action list \<Rightarrow> task \<Rightarrow> task" where
  "run_task tid acts t = fold (\<lambda>a. task_step a tid) acts t"

section \<open>Properties of aggregate\_parameters\_from\_messages\<close>

lemma collect_loop_all_errors:
  "list_all has_error msgs \<Longrightarrow> collect_loop p2sd acc msgs = Inr acc"
  by (induction msgs arbitrary: acc) simp_all

lemma collect_loop_filter:
  "collect_loop p2sd acc msgs = collect_loop p2sd acc (filter (\<lambda>m. \<not> has_error m) msgs)"
  by (induction msgs arbitrary: acc) (simp_all split: option.splits)

lemma map_of_Some_val: "k \<in> fst ` set d \<Longrightarrow> map_of d k = Some (val d k)"
  by (auto simp: val_def split: option.splits simp: map_of_eq_None_iff)

lemma keys_update_present:
  "k \<in> fst ` set d \<Longrightarrow> map fst (AList.update k v d) = map fst d"
  by (simp add: update_keys)

lemma val_update: "val (AList.update k v d) k' = (if k' = k then v else val d k')"
  by (simp add: val_def update_conv')

lemma add_items_spec:
  assumes "heap \<noteq> []" "d < length heap"
    and "set keys \<subseteq> fst ` set (heap ! d)" "set keys \<subseteq> fst ` set (heap ! 0)" "distinct keys"
  shows "\<exists>heap'. add_items heap d keys = Inr heap' \<and> length heap' = length heap
           \<and> tl heap' = tl heap
           \<and> map fst (heap' ! 0) = map fst (heap ! 0)
           \<and> (\<forall>k. val (heap' ! 0) k =
                 (if k \<in> set keys then val (heap ! 0) k + val (heap ! d) k else val (heap ! 0) k))"
  using assms
proof (induction keys arbitrary: heap)
  case Nil
  then show ?case by simp
next
  case (Cons key keys)
  let ?G = "heap ! 0"
  let ?h1 = "setitem heap 0 key (val ?G key + val (heap ! d) key)"
  from Cons.prems have kd: "key \<in> fst ` set (heap ! d)" and kg: "key \<in> fst ` set ?G"
    and notin: "key \<notin> set keys" and dk: "distinct keys" by auto
  have len: "length ?h1 = length heap" by (simp add: setitem_def)
  have h10: "?h1 ! 0 = AList.update key (val ?G key + val (heap ! d) key) ?G"
    using Cons.prems(1) by (simp add: setitem_def)
  have h1d: "d \<noteq> 0 \<Longrightarrow> ?h1 ! d = heap ! d" by (simp add: setitem_def)
  have tl1: "tl ?h1 = tl heap" using Cons.prems(1) by (cases heap) (simp_all add: setitem_def)
  have keys0: "map fst (?h1 ! 0) = map fst ?G" using kg by (simp add: h10 keys_update_present)
  have keysd: "fst ` set (?h1 ! d) = fst ` set (heap ! d)"
  proof (cases "d = 0")
    case True
    then show ?thesis using keys0 by (metis list.set_map)
  next
    case False
    then show ?thesis by (simp add: h1d)
  qed
  have "\<exists>heap'. add_items ?h1 d keys = Inr heap' \<and> length heap' = length ?h1
           \<and> tl heap' = tl ?h1
           \<and> map fst (heap' ! 0) = map fst (?h1 ! 0)
           \<and> (\<forall>k. val (heap' ! 0) k =
                 (if k \<in> set keys then val (?h1 ! 0) k + val (?h1 ! d) k else val (?h1 ! 0) k))"
  proof (rule Cons.IH)
    show "?h1 \<noteq> []" using Cons.prems(1) len by auto
    show "d < length ?h1" using Cons.prems(2) len by simp
    show "set keys \<subseteq> fst ` set (?h1 ! d)" using Cons.prems(3) keysd by auto
    show "set keys \<subseteq> fst ` set (?h1 ! 0)" using Cons.prems(4) keys0 by (metis list.set_map set_subset_Cons subset_trans)
    show "distinct keys" by (rule dk)
  qed
  then obtain heap' where r: "add_items ?h1 d keys = Inr heap'" "length heap' = length ?h1"
    "tl heap' = tl ?h1" "map fst (heap' ! 0) = map fst (?h1 ! 0)"
    and v: "\<And>k. val (heap' ! 0) k =
                 (if k \<in> set keys then val (?h1 ! 0) k + val (?h1 ! d) k else val (?h1 ! 0) k)"
    by blast
  have step: "add_items heap d (key # keys) = add_items ?h1 d keys"
    using kd kg by (simp add: map_of_Some_val)
  have a: "val (?h1 ! 0) k = (if k = key then val ?G key + val (heap ! d) key else val ?G k)" for k
    unfolding h10 by (rule val_update)
  have b: "k \<noteq> key \<Longrightarrow> val (?h1 ! d) k = val (heap ! d) k" for k
  proof (cases "d = 0")
    case True
    assume "k \<noteq> key"
    then have "val (?h1 ! 0) k = val ?G k" unfolding a by simp
    then show ?thesis using True by simp
  next
    case False
    then show ?thesis by (simp add: h1d)
  qed
  have vals: "val (heap' ! 0) k =
      (if k \<in> set (key # keys) then val ?G k + val (heap ! d) k else val ?G k)" for k
  proof (cases "k = key")
    case True
    then show ?thesis using v[of k] notin a[of k] by simp
  next
    case False
    then show ?thesis using v[of k] a[of k] b[of k] by simp
  qed
  show ?case
    using step r len tl1 keys0 vals by auto
qed


lemma nth_pos_tl: "0 < d \<Longrightarrow> d < length xs \<Longrightarrow> xs ! d = tl xs ! (d - 1)"
  by (cases xs; cases d) simp_all

lemma sum_loop_spec:
  assumes "heap \<noteq> []"
    and "\<forall>d \<in> set ds. 0 < d \<and> d < length heap"
    and "\<forall>d \<in> set ds. fst ` set (heap ! d) = fst ` set (heap ! 0)"
    and "\<forall>d \<in> set ds. distinct (map fst (heap ! d))"
  shows "\<exists>heap'. sum_loop heap ds = Inr heap' \<and> length heap' = length heap
           \<and> tl heap' = tl heap
           \<and> map fst (heap' ! 0) = map fst (heap ! 0)
           \<and> (\<forall>k \<in> fst ` set (heap ! 0).
                 val (heap' ! 0) k = val (heap ! 0) k + (\<Sum>d\<leftarrow>ds. val (heap ! d) k))"
  using assms
proof (induction ds arbitrary: heap)
  case Nil
  then show ?case by simp
next
  case (Cons d ds)
  from Cons.prems have d: "0 < d" "d < length heap"
    and kd: "fst ` set (heap ! d) = fst ` set (heap ! 0)"
    and dd: "distinct (map fst (heap ! d))" by simp_all
  have "\<exists>heap'. add_items heap d (map fst (heap ! d)) = Inr heap' \<and> length heap' = length heap
           \<and> tl heap' = tl heap
           \<and> map fst (heap' ! 0) = map fst (heap ! 0)
           \<and> (\<forall>k. val (heap' ! 0) k =
                 (if k \<in> set (map fst (heap ! d)) then val (heap ! 0) k + val (heap ! d) k
                  else val (heap ! 0) k))"
    using Cons.prems(1) d(2) kd dd by (intro add_items_spec) simp_all
  then obtain h1 where h1: "add_items heap d (map fst (heap ! d)) = Inr h1"
    "length h1 = length heap" "tl h1 = tl heap" "map fst (h1 ! 0) = map fst (heap ! 0)"
    and v1: "\<And>k. val (h1 ! 0) k =
                 (if k \<in> set (map fst (heap ! d)) then val (heap ! 0) k + val (heap ! d) k
                  else val (heap ! 0) k)"
    by blast
  have same: "0 < j \<Longrightarrow> j < length heap \<Longrightarrow> h1 ! j = heap ! j" for j
    using h1(2,3) by (simp add: nth_pos_tl)
  have keys0: "fst ` set (h1 ! 0) = fst ` set (heap ! 0)"
    using h1(4) by (metis list.set_map)
  have "\<exists>heap'. sum_loop h1 ds = Inr heap' \<and> length heap' = length h1
           \<and> tl heap' = tl h1
           \<and> map fst (heap' ! 0) = map fst (h1 ! 0)
           \<and> (\<forall>k \<in> fst ` set (h1 ! 0).
                 val (heap' ! 0) k = val (h1 ! 0) k + (\<Sum>d\<leftarrow>ds. val (h1 ! d) k))"
  proof (rule Cons.IH)
    show "h1 \<noteq> []" using Cons.prems(1) h1(2) by auto
    show "\<forall>d\<in>set ds. 0 < d \<and> d < length h1" using Cons.prems(2) h1(2) by simp
    show "\<forall>d\<in>set ds. fst ` set (h1 ! d) = fst ` set (h1 ! 0)"
      using Cons.prems(2,3) same keys0 by simp
    show "\<forall>d\<in>set ds. distinct (map fst (h1 ! d))"
      using Cons.prems(2,4) same by simp
  qed
  then obtain h2 where h2: "sum_loop h1 ds = Inr h2" "length h2 = length h1"
    "tl h2 = tl h1" "map fst (h2 ! 0) = map fst (h1 ! 0)"
    and v2: "\<And>k. k \<in> fst ` set (h1 ! 0) \<Longrightarrow>
                 val (h2 ! 0) k = val (h1 ! 0) k + (\<Sum>d\<leftarrow>ds. val (h1 ! d) k)"
    by blast
  have sums: "(\<Sum>d\<leftarrow>ds. val (h1 ! d) k) = (\<Sum>d\<leftarrow>ds. val (heap ! d) k)" for k
  proof -
    have "map (\<lambda>d. val (h1 ! d) k) ds = map (\<lambda>d. val (heap ! d) k) ds"
      using Cons.prems(2) same by simp
    then show ?thesis by (rule arg_cong)
  qed
  have vals: "val (h2 ! 0) k = val (heap ! 0) k + (\<Sum>d\<leftarrow>d # ds. val (heap ! d) k)"
    if "k \<in> fst ` set (heap ! 0)" for k
  proof -
    have "k \<in> set (map fst (heap ! d))" using that kd by simp
    then have "val (h1 ! 0) k = val (heap ! 0) k + val (heap ! d) k" using v1[of k] by simp
    moreover have "val (h2 ! 0) k = val (h1 ! 0) k + (\<Sum>d\<leftarrow>ds. val (h1 ! d) k)"
      using that keys0 by (intro v2) simp
    ultimately show ?thesis using sums[of k] by simp
  qed
  have "sum_loop heap (d # ds) = Inr h2" using h1(1) h2(1) by simp
  then show ?case using h1 h2 vals by auto
qed

lemma average_loop_spec:
  "set keys \<subseteq> fst ` set g \<Longrightarrow> distinct keys \<Longrightarrow>
     map fst (average_loop g n keys) = map fst g
     \<and> (\<forall>k. val (average_loop g n keys) k = (if k \<in> set keys then val g k / real n else val g k))"
proof (induction keys arbitrary: g)
  case Nil
  then show ?case by simp
next
  case (Cons key keys)
  let ?g1 = "AList.update key (val g key / real n) g"
  from Cons.prems have kg: "key \<in> fst ` set g" and notin: "key \<notin> set keys" by auto
  have keys1: "map fst ?g1 = map fst g" using kg by (rule keys_update_present)
  have "set keys \<subseteq> fst ` set ?g1" using Cons.prems(1) keys1 by (metis list.set_map set_subset_Cons subset_trans)
  then have ih: "map fst (average_loop ?g1 n keys) = map fst ?g1"
    "\<And>k. val (average_loop ?g1 n keys) k = (if k \<in> set keys then val ?g1 k / real n else val ?g1 k)"
    using Cons.IH[of ?g1] Cons.prems(2) by auto
  have step: "average_loop g n (key # keys) = average_loop ?g1 n keys"
    using kg by (simp add: map_of_Some_val)
  show ?case
    unfolding step using ih keys1 notin by (auto simp: val_update)
qed


lemma sum_over_tail_positions:
  "h \<noteq> [] \<Longrightarrow> (\<Sum>d\<leftarrow>[1..<length h]. f (h ! d)) = (\<Sum>x\<leftarrow>tl h. f x)"
proof -
  assume "h \<noteq> []"
  then obtain x xs where h: "h = x # xs" by (cases h) auto
  have "[1..<length h] = map Suc [0..<length xs]"
    unfolding h by (simp add: map_Suc_upt)
  then have "map (\<lambda>d. f (h ! d)) [1..<length h] = map (\<lambda>i. f (xs ! i)) [0..<length xs]"
    by (simp add: h)
  also have "\<dots> = map f (map (nth xs) [0..<length xs])" by simp
  also have "\<dots> = map f xs" by (simp only: map_nth)
  finally show ?thesis by (simp add: h)
qed

lemma accumulate_counts_first_twice:
  assumes same_keys: "\<forall>d \<in> set ds. fst ` set d = fst ` set g"
    and dist: "\<forall>d \<in> set (g # ds). distinct (map fst d)"
  shows "\<exists>heap. sum_loop (g # ds) [0..<length (g # ds)] = Inr heap
           \<and> map fst (heap ! 0) = map fst g
           \<and> (\<forall>k \<in> fst ` set g. val (heap ! 0) k = 2 * val g k + (\<Sum>d\<leftarrow>ds. val d k))"
proof -
  let ?h = "g # ds"
  have "\<exists>heap'. add_items ?h 0 (map fst (?h ! 0)) = Inr heap' \<and> length heap' = length ?h
           \<and> tl heap' = tl ?h
           \<and> map fst (heap' ! 0) = map fst (?h ! 0)
           \<and> (\<forall>k. val (heap' ! 0) k =
                 (if k \<in> set (map fst (?h ! 0)) then val (?h ! 0) k + val (?h ! 0) k
                  else val (?h ! 0) k))"
    using dist by (intro add_items_spec) simp_all
  then obtain h1 where raw: "add_items ?h 0 (map fst (?h ! 0)) = Inr h1"
    "length h1 = length ?h" "tl h1 = tl ?h" "map fst (h1 ! 0) = map fst (?h ! 0)"
    and vraw: "\<And>k. val (h1 ! 0) k =
                 (if k \<in> set (map fst (?h ! 0)) then val (?h ! 0) k + val (?h ! 0) k
                  else val (?h ! 0) k)"
    by blast
  have h1: "add_items ?h 0 (map fst g) = Inr h1"
    "length h1 = Suc (length ds)" "tl h1 = ds" "map fst (h1 ! 0) = map fst g"
    using raw by simp_all
  have v1: "val (h1 ! 0) k = 2 * val g k" if "k \<in> fst ` set g" for k
    using vraw[of k] that by simp
  have ne: "h1 \<noteq> []" using h1(2) by auto
  have same: "0 < j \<Longrightarrow> j < length h1 \<Longrightarrow> h1 ! j = ds ! (j - 1)" for j
    using h1(3) by (simp add: nth_pos_tl)
  have keys0: "fst ` set (h1 ! 0) = fst ` set g"
    using h1(4) by (metis list.set_map)
  have mem: "0 < j \<Longrightarrow> j < length h1 \<Longrightarrow> h1 ! j \<in> set ds" for j
    using same[of j] h1(2) by simp
  have "\<exists>heap'. sum_loop h1 [1..<length h1] = Inr heap' \<and> length heap' = length h1
           \<and> tl heap' = tl h1
           \<and> map fst (heap' ! 0) = map fst (h1 ! 0)
           \<and> (\<forall>k \<in> fst ` set (h1 ! 0).
                 val (heap' ! 0) k = val (h1 ! 0) k + (\<Sum>d\<leftarrow>[1..<length h1]. val (h1 ! d) k))"
  proof (rule sum_loop_spec)
    show "h1 \<noteq> []" by (rule ne)
    show "\<forall>d\<in>set [1..<length h1]. 0 < d \<and> d < length h1" by simp
    show "\<forall>d\<in>set [1..<length h1]. fst ` set (h1 ! d) = fst ` set (h1 ! 0)"
    proof
      fix d assume "d \<in> set [1..<length h1]"
      then have "h1 ! d \<in> set ds" by (intro mem) simp_all
      then show "fst ` set (h1 ! d) = fst ` set (h1 ! 0)" using same_keys keys0 by simp
    qed
    show "\<forall>d\<in>set [1..<length h1]. distinct (map fst (h1 ! d))"
    proof
      fix d assume "d \<in> set [1..<length h1]"
      then have "h1 ! d \<in> set ds" by (intro mem) simp_all
      then show "distinct (map fst (h1 ! d))" using dist by simp
    qed
  qed
  then obtain h2 where h2: "sum_loop h1 [1..<length h1] = Inr h2"
    "map fst (h2 ! 0) = map fst (h1 ! 0)"
    and v2: "\<And>k. k \<in> fst ` set g \<Longrightarrow>
                val (h2 ! 0) k = val (h1 ! 0) k + (\<Sum>d\<leftarrow>[1..<length h1]. val (h1 ! d) k)"
    using keys0 by auto
  have tails: "(\<Sum>d\<leftarrow>[1..<length h1]. val (h1 ! d) k) = (\<Sum>x\<leftarrow>ds. val x k)" for k
    using sum_over_tail_positions[OF ne, of "\<lambda>x. val x k"] h1(3) by simp
  have "[0..<length ?h] = 0 # [1..<length h1]"
    using h1(2) by (simp add: upt_rec)
  then have "sum_loop ?h [0..<length ?h] = Inr h2"
    using h1(1) h2(1) by simp
  moreover have "map fst (h2 ! 0) = map fst g" using h1(4) h2(2) by simp
  moreover have "\<forall>k \<in> fst ` set g. val (h2 ! 0) k = 2 * val g k + (\<Sum>d\<leftarrow>ds. val d k)"
    using v1 v2 tails by simp
  ultimately show ?thesis by blast
qed

lemma aggregate_counts_first_twice:
  assumes coll: "collect_loop p2sd [] messages = Inr (g # ds)"
    and same_keys: "\<forall>d \<in> set ds. fst ` set d = fst ` set g"
    and dist: "\<forall>d \<in> set (g # ds). distinct (map fst d)"
  shows "\<exists>r. aggregate_parameters_from_messages p2sd messages = Inr r
           \<and> map fst r = map fst g
           \<and> (\<forall>k \<in> fst ` set g.
                 val r k = (2 * val g k + (\<Sum>d\<leftarrow>ds. val d k)) / real (length (g # ds)))"
proof -
  obtain heap where h: "sum_loop (g # ds) [0..<length (g # ds)] = Inr heap"
    "map fst (heap ! 0) = map fst g"
    and v: "\<And>k. k \<in> fst ` set g \<Longrightarrow> val (heap ! 0) k = 2 * val g k + (\<Sum>d\<leftarrow>ds. val d k)"
    using accumulate_counts_first_twice[OF same_keys dist] by blast
  let ?r = "average_loop (heap ! 0) (length (g # ds)) (map fst (heap ! 0))"
  have dk: "distinct (map fst (heap ! 0))" using h(2) dist by simp
  have avg: "map fst ?r = map fst (heap ! 0)"
    "\<And>k. val ?r k = (if k \<in> set (map fst (heap ! 0)) then val (heap ! 0) k / real (length (g # ds))
                      else val (heap ! 0) k)"
    using average_loop_spec[of "map fst (heap ! 0)" "heap ! 0" "length (g # ds)"] dk by auto
  have "aggregate_parameters_from_messages p2sd messages = Inr ?r"
    using coll h(1) by (simp add: aggregate_parameters_from_messages_def)
  moreover have "map fst ?r = map fst g" using avg(1) h(2) by simp
  moreover have "\<forall>k \<in> fst ` set g.
      val ?r k = (2 * val g k + (\<Sum>d\<leftarrow>ds. val d k)) / real (length (g # ds))"
  proof
    fix k assume k: "k \<in> fst ` set g"
    then have "k \<in> set (map fst (heap ! 0))" using h(2) by simp
    then show "val ?r k = (2 * val g k + (\<Sum>d\<leftarrow>ds. val d k)) / real (length (g # ds))"
      using avg(2)[of k] v[OF k] by simp
  qed
  ultimately show ?thesis by blast
qed

lemma aggregate_differs_from_mean:
  assumes coll: "collect_loop p2sd [] messages = Inr (g # ds)"
    and same_keys: "\<forall>d \<in> set ds. fst ` set d = fst ` set g"
    and dist: "\<forall>d \<in> set (g # ds). distinct (map fst d)"
    and res: "aggregate_parameters_from_messages p2sd messages = Inr r"
    and k: "k \<in> fst ` set g"
  shows "val r k = mean_of (g # ds) k + val g k / real (length (g # ds))"
proof -
  have "val r k = (2 * val g k + (\<Sum>d\<leftarrow>ds. val d k)) / real (length (g # ds))"
    using aggregate_counts_first_twice[OF coll same_keys dist] res k by auto
  then show ?thesis
    by (simp add: mean_of_def add_divide_distrib)
qed

text \<open>
  C3. The claim: for a nonempty list of error-free replies with the same keys, the result
  holds at each key the arithmetic mean of the replies' values. The code does not compute
  it: \<open>new_global_dict\<close> is the first state dict itself, and the accumulation loop adds
  the first state dict to it once more, so the first reply is counted twice
  (\<open>aggregate_counts_first_twice\<close>). For the single reply \<open>{"w": 1}\<close> the code returns
  \<open>{"w": 2}\<close>, and the mean is 1.
\<close>

theorem aggregate_single_reply_doubled:
  "aggregate_parameters_from_messages id [reply_with [(''w'', 1)]] = Inr [(''w'', 2)]
   \<and> mean_of [[(''w'', 1)]] ''w'' = 1"
  by (simp add: aggregate_parameters_from_messages_def reply_with_def setitem_def
      mean_of_def val_def)

text \<open>
  C7. The result depends only on the error-free messages: two message lists with the same
  error-free messages, in the same order, give the same result (the same state dict, or the
  same exception). Removing or inserting messages with an error changes nothing.
\<close>

theorem aggregate_ignores_error_replies:
  assumes "filter (\<lambda>m. \<not> has_error m) ms = filter (\<lambda>m. \<not> has_error m) ms'"
  shows "aggregate_parameters_from_messages p2sd ms = aggregate_parameters_from_messages p2sd ms'"
proof -
  have "collect_loop p2sd [] ms = collect_loop p2sd [] ms'"
    using assms collect_loop_filter[of p2sd "[]" ms] collect_loop_filter[of p2sd "[]" ms']
    by simp
  then show ?thesis
    by (simp add: aggregate_parameters_from_messages_def)
qed

theorem aggregate_ignores_error_replies_witness:
  "aggregate_parameters_from_messages id
     [error_reply, reply_with [(''w'', 1), (''b'', 4)], error_reply, reply_with [(''w'', 3), (''b'', 6)]]
   = aggregate_parameters_from_messages id
       [reply_with [(''w'', 1), (''b'', 4)], reply_with [(''w'', 3), (''b'', 6)]]"
  using aggregate_ignores_error_replies
    [of "[error_reply, reply_with [(''w'', 1), (''b'', 4)], error_reply, reply_with [(''w'', 3), (''b'', 6)]]"
        "[reply_with [(''w'', 1), (''b'', 4)], reply_with [(''w'', 3), (''b'', 6)]]" id]
  by (simp add: error_reply_def reply_with_def)

text \<open>
  C8. When the message list is empty, or every message has an error, no state dict is
  collected, \<open>state_dict_list[0]\<close> is out of range and the function raises
  \<open>IndexError\<close>: it returns no aggregated model.
\<close>

theorem aggregate_all_failed_raises:
  assumes "\<forall>m \<in> set messages. has_error m"
  shows "aggregate_parameters_from_messages p2sd messages = Inl IndexError"
proof -
  have "list_all has_error messages" using assms by (simp add: list_all_iff)
  then have "collect_loop p2sd [] messages = Inr []" by (rule collect_loop_all_errors)
  then show ?thesis by (simp add: aggregate_parameters_from_messages_def)
qed

theorem aggregate_all_failed_raises_witness:
  "has_error error_reply
   \<and> aggregate_parameters_from_messages id [error_reply, error_reply] = Inl IndexError
   \<and> aggregate_parameters_from_messages id ([] :: state_dict Message list) = Inl IndexError"
  using aggregate_all_failed_raises [of "[error_reply, error_reply]" id]
    aggregate_all_failed_raises [of "[] :: state_dict Message list" id]
  by (simp add: error_reply_def)


section \<open>Properties of construct\_messages and main\<close>

lemma str_int_12: "str_int 12 = ''12''"
  by (simp add: str_int_def str_nat.simps digit_char_def)

text \<open>
  C4. \<open>construct_messages\<close> calls \<open>driver.create_message\<close> once per node id, in the
  order of \<open>node_ids\<close>, with that node id as destination and \<open>str(server_round)\<close> as group
  id. With a driver that stores the destination and the group id it is given in the message,
  the destinations of the returned messages, read in order, are \<open>node_ids\<close> itself, and
  every message of the batch carries the group id \<open>str(server_round)\<close>.
\<close>

theorem construct_messages_one_per_node:
  assumes "\<And>recordset msg_type node_id grp.
             dst_node_id (create_msg recordset msg_type node_id grp) = node_id"
    and "\<And>recordset msg_type node_id grp.
             group_id (create_msg recordset msg_type node_id grp) = grp"
  shows "length (construct_messages sd2p create_msg gm node_ids msg_type server_round)
           = length node_ids
         \<and> map dst_node_id (construct_messages sd2p create_msg gm node_ids msg_type server_round)
             = node_ids
         \<and> map group_id (construct_messages sd2p create_msg gm node_ids msg_type server_round)
             = replicate (length node_ids) (str_int server_round)"
  using assms
  by (simp add: construct_messages_def Let_def comp_def map_replicate_const)

theorem construct_messages_one_per_node_witness:
  "map dst_node_id (construct_messages id Driver_create_message [(''w'', 1)] [5, 3, 5] TRAIN 12)
     = [5, 3, 5]
   \<and> map group_id (construct_messages id Driver_create_message [(''w'', 1)] [5, 3, 5] TRAIN 12)
     = [''12'', ''12'', ''12'']"
proof -
  have d: "dst_node_id (Driver_create_message recordset msg_type node_id grp) = node_id"
    for recordset :: "state_dict RecordSet" and msg_type node_id grp
    by (simp add: Driver_create_message_def)
  have g: "group_id (Driver_create_message recordset msg_type node_id grp) = grp"
    for recordset :: "state_dict RecordSet" and msg_type node_id grp
    by (simp add: Driver_create_message_def)
  show ?thesis
    using construct_messages_one_per_node [of Driver_create_message id "[(''w'', 1)]" "[5, 3, 5]"
        TRAIN 12, OF d g]
    by (simp add: str_int_12 numeral_3_eq_3)
qed

lemma orderedD:
  assumes "ordered tr" and "i < length tr" and "tr ! i = ConstructMessages (Suc n)"
  shows "\<exists>j<i. tr ! j = SendAndReceiveReturn n"
  using assms by (simp add: ordered_def)

lemma ordered_snoc_other:
  assumes "ordered tr" and "\<And>n. e \<noteq> ConstructMessages (Suc n)"
  shows "ordered (tr @ [e])"
  unfolding ordered_def
proof (intro allI impI)
  fix i n
  assume a: "i < length (tr @ [e]) \<and> (tr @ [e]) ! i = ConstructMessages (Suc n)"
  have "i \<noteq> length tr" using a assms(2)[of n] by auto
  then have lt: "i < length tr" using a by simp
  then have "tr ! i = ConstructMessages (Suc n)" using a by (simp add: nth_append)
  then obtain j where j: "j < i" "tr ! j = SendAndReceiveReturn n"
    using orderedD[OF assms(1) lt] by blast
  then have "(tr @ [e]) ! j = SendAndReceiveReturn n" using lt by (simp add: nth_append)
  then show "\<exists>j<i. (tr @ [e]) ! j = SendAndReceiveReturn n"
    using j(1) by blast
qed

lemma ordered_snoc_construct:
  assumes "ordered tr" and "r = 0 \<or> SendAndReceiveReturn (r - 1) \<in> set tr"
  shows "ordered (tr @ [ConstructMessages r])"
  unfolding ordered_def
proof (intro allI impI)
  fix i n
  assume a: "i < length (tr @ [ConstructMessages r])
             \<and> (tr @ [ConstructMessages r]) ! i = ConstructMessages (Suc n)"
  show "\<exists>j<i. (tr @ [ConstructMessages r]) ! j = SendAndReceiveReturn n"
  proof (cases "i = length tr")
    case True
    then have "r = Suc n" using a by simp
    then have "SendAndReceiveReturn n \<in> set tr" using assms(2) by simp
    then obtain j where j: "j < length tr" "tr ! j = SendAndReceiveReturn n"
      by (auto simp: in_set_conv_nth)
    then have "(tr @ [ConstructMessages r]) ! j = SendAndReceiveReturn n"
      by (simp add: nth_append)
    then show ?thesis using j(1) True by blast
  next
    case False
    then have lt: "i < length tr" using a by simp
    then have "tr ! i = ConstructMessages (Suc n)" using a by (simp add: nth_append)
    then obtain j where j: "j < i" "tr ! j = SendAndReceiveReturn n"
      using orderedD[OF assms(1) lt] by blast
    then have "(tr @ [ConstructMessages r]) ! j = SendAndReceiveReturn n"
      using lt by (simp add: nth_append)
    then show ?thesis using j(1) by blast
  qed
qed

lemma trace_emit: "trace (emit e s) = trace s @ [e]"
  by (simp add: emit_def)

lemma trace_do_get_node_ids:
  "do_get_node_ids X r s = (node_ids, s1) \<Longrightarrow> trace s1 = trace s @ [GetNodeIds r]"
  unfolding do_get_node_ids_def
  by (cases "get_node_ids X (driver s)") (auto simp: trace_emit)

lemma trace_do_construct_messages:
  "do_construct_messages X r node_ids s = (messages, s2) \<Longrightarrow>
     trace s2 = trace s @ [ConstructMessages r]"
  unfolding do_construct_messages_def by (auto simp: trace_emit)

lemma trace_do_send_and_receive:
  "do_send_and_receive X r messages s = (replies, s3) \<Longrightarrow>
     trace s3 = trace s @ [SendAndReceiveCall r, SendAndReceiveReturn r]"
  unfolding do_send_and_receive_def
  by (cases "send_and_receive X (driver (emit (SendAndReceiveCall r) s)) messages")
     (auto simp: trace_emit)

lemma round_body_ordered:
  assumes o: "ordered tr" and prev: "r = 0 \<or> SendAndReceiveReturn (r - 1) \<in> set tr"
  shows "ordered (tr @ [GetNodeIds r, ConstructMessages r, SendAndReceiveCall r,
                        SendAndReceiveReturn r, Aggregate r])"
    and "ordered (tr @ [GetNodeIds r, ConstructMessages r, SendAndReceiveCall r,
                        SendAndReceiveReturn r, Aggregate r, LoadStateDict r, CentralTest r])"
proof -
  have 1: "ordered (tr @ [GetNodeIds r])"
    using o by (rule ordered_snoc_other) simp
  have prev': "r = 0 \<or> SendAndReceiveReturn (r - 1) \<in> set (tr @ [GetNodeIds r])"
    using prev by auto
  have 2: "ordered (tr @ [GetNodeIds r] @ [ConstructMessages r])"
    using ordered_snoc_construct[OF 1 prev'] by simp
  have 3: "ordered (tr @ [GetNodeIds r, ConstructMessages r] @ [SendAndReceiveCall r])"
    using ordered_snoc_other[OF 2, of "SendAndReceiveCall r"] by simp
  have 4: "ordered (tr @ [GetNodeIds r, ConstructMessages r, SendAndReceiveCall r]
                      @ [SendAndReceiveReturn r])"
    using ordered_snoc_other[OF 3, of "SendAndReceiveReturn r"] by simp
  have 5: "ordered (tr @ [GetNodeIds r, ConstructMessages r, SendAndReceiveCall r,
                          SendAndReceiveReturn r] @ [Aggregate r])"
    using ordered_snoc_other[OF 4, of "Aggregate r"] by simp
  then show "ordered (tr @ [GetNodeIds r, ConstructMessages r, SendAndReceiveCall r,
                        SendAndReceiveReturn r, Aggregate r])" by simp
  have 6: "ordered (tr @ [GetNodeIds r, ConstructMessages r, SendAndReceiveCall r,
                          SendAndReceiveReturn r, Aggregate r] @ [LoadStateDict r])"
    using ordered_snoc_other[OF 5, of "LoadStateDict r"] by simp
  have 7: "ordered (tr @ [GetNodeIds r, ConstructMessages r, SendAndReceiveCall r,
                          SendAndReceiveReturn r, Aggregate r, LoadStateDict r] @ [CentralTest r])"
    using ordered_snoc_other[OF 6, of "CentralTest r"] by simp
  then show "ordered (tr @ [GetNodeIds r, ConstructMessages r, SendAndReceiveCall r,
                        SendAndReceiveReturn r, Aggregate r, LoadStateDict r, CentralTest r])"
    by simp
qed

lemma round_loop_ordered:
  "ordered (trace s) \<Longrightarrow> r = 0 \<or> SendAndReceiveReturn (r - 1) \<in> set (trace s) \<Longrightarrow>
   round_loop X r num_rounds s = (res, s') \<Longrightarrow> ordered (trace s')"
proof (induction X r num_rounds s rule: round_loop.induct)
  case (1 X r num_rounds s)
  show ?case
  proof (cases "r < num_rounds")
    case False
    then show ?thesis using "1.prems" by (simp add: round_loop.simps[of X r num_rounds s])
  next
    case True
    obtain node_ids s1 where g: "do_get_node_ids X r s = (node_ids, s1)"
      by (cases "do_get_node_ids X r s")
    obtain messages s2 where c: "do_construct_messages X r node_ids s1 = (messages, s2)"
      by (cases "do_construct_messages X r node_ids s1")
    obtain replies s3 where sr: "do_send_and_receive X r messages s2 = (replies, s3)"
      by (cases "do_send_and_receive X r messages s2")
    have t3: "trace s3 = trace s @ [GetNodeIds r, ConstructMessages r, SendAndReceiveCall r,
                                    SendAndReceiveReturn r]"
      using trace_do_get_node_ids[OF g] trace_do_construct_messages[OF c]
        trace_do_send_and_receive[OF sr] by simp
    show ?thesis
    proof (cases "aggregate_parameters_from_messages (parameters_record_to_state_dict X) replies")
      case (Inl e)
      then have "s' = emit (Aggregate r) s3"
        using "1.prems"(3) True g c sr by (simp add: round_loop.simps[of X r num_rounds s])
      then have "trace s' = trace s @ [GetNodeIds r, ConstructMessages r, SendAndReceiveCall r,
                                    SendAndReceiveReturn r, Aggregate r]"
        using t3 by (simp add: trace_emit)
      then show ?thesis using round_body_ordered(1)[OF "1.prems"(1,2)] by simp
    next
      case (Inr sd)
      let ?s4 = "emit (CentralTest r) (emit (LoadStateDict r)
                   ((emit (Aggregate r) s3)\<lparr>global_model := sd\<rparr>))"
      have t4: "trace ?s4 = trace s @ [GetNodeIds r, ConstructMessages r, SendAndReceiveCall r,
                        SendAndReceiveReturn r, Aggregate r, LoadStateDict r, CentralTest r]"
        using t3 by (simp add: emit_def)
      have rec: "round_loop X (Suc r) num_rounds ?s4 = (res, s')"
        using "1.prems"(3) True g c sr Inr by (simp add: round_loop.simps[of X r num_rounds s])
      have "ordered (trace ?s4)"
        unfolding t4 using round_body_ordered(2)[OF "1.prems"(1,2)] .
      moreover have "Suc r = 0 \<or> SendAndReceiveReturn (Suc r - 1) \<in> set (trace ?s4)"
        unfolding t4 by simp
      ultimately show ?thesis
        using "1.IH"[OF True g[symmetric] c[symmetric] sr[symmetric] Inr] rec
        by blast
    qed
  qed
qed


lemma main_cases:
  "main X drv run_config = (res, s') \<Longrightarrow>
     trace s' = [] \<or>
     (\<exists>n. round_loop X 0 n \<lparr>driver = drv, global_model = Net X, trace = []\<rparr> = (res, s'))"
  unfolding main_def Let_def
  by (auto split: option.splits config_value.splits)

lemma ordered_Nil: "ordered []"
  by (simp add: ordered_def)

lemma example_trace:
  "trace (snd example_run) =
     [GetNodeIds 0, ConstructMessages 0, SendAndReceiveCall 0, SendAndReceiveReturn 0,
      Aggregate 0, LoadStateDict 0, CentralTest 0,
      GetNodeIds 1, ConstructMessages 1, SendAndReceiveCall 1, SendAndReceiveReturn 1,
      Aggregate 1, LoadStateDict 1, CentralTest 1]"
  by (simp add: example_run_def main_def example_config_def scripted_def round_loop.simps
      do_get_node_ids_def do_construct_messages_def do_send_and_receive_def emit_def
      aggregate_parameters_from_messages_def reply_with_def error_reply_def setitem_def)


text \<open>
  C5. In every run of \<open>main\<close>, whether it ends normally or with an exception, the messages
  of round \<open>n + 1\<close> are constructed only after \<open>driver.send_and_receive\<close> of round \<open>n\<close>
  has returned: in the trace, the return of the rendezvous of round \<open>n\<close> stands before
  the construction of the messages of round \<open>n + 1\<close>.
\<close>

theorem main_no_pipelining:
  assumes "main X drv run_config = (res, s')"
    and "i < length (trace s')" and "trace s' ! i = ConstructMessages (Suc n)"
  shows "\<exists>j<i. trace s' ! j = SendAndReceiveReturn n"
proof -
  have "ordered (trace s')"
  proof -
    from main_cases[OF assms(1)] consider "trace s' = []"
      | k where "round_loop X 0 k \<lparr>driver = drv, global_model = Net X, trace = []\<rparr> = (res, s')"
      by blast
    then show ?thesis
    proof cases
      case 1
      then show ?thesis by (simp add: ordered_Nil)
    next
      case 2
      show ?thesis
        by (rule round_loop_ordered[OF _ _ 2]) (simp_all add: ordered_Nil)
    qed
  qed
  then show ?thesis using assms(2,3) by (rule orderedD)
qed

theorem main_no_pipelining_witness:
  "trace (snd example_run) ! 8 = ConstructMessages (Suc 0)
   \<and> (\<exists>j<8. trace (snd example_run) ! j = SendAndReceiveReturn 0)"
proof -
  have run: "main scripted [[reply_with [(''w'', 1)]], [reply_with [(''w'', 3)], error_reply]]
               example_config = (fst example_run, snd example_run)"
    by (simp add: example_run_def)
  have len: "8 < length (trace (snd example_run))" by (simp add: example_trace)
  have at: "trace (snd example_run) ! 8 = ConstructMessages (Suc 0)" by (simp add: example_trace)
  show ?thesis using main_no_pipelining[OF run len at] at by simp
qed


section \<open>Properties of \_register\_nodes and start\_vce\<close>

lemma update_fresh: "k \<notin> fst ` set al \<Longrightarrow> AList.update k v al = al @ [(k, v)]"
  by (induction al) auto

lemma register_loop_fresh:
  "distinct (map fst acc @ created_ids create_node (length rng) state) \<Longrightarrow>
   register_loop create_node rng state acc
     = (acc @ zip (created_ids create_node (length rng) state) rng,
        state_after create_node (length rng) state)"
proof (induction rng arbitrary: state acc)
  case Nil
  then show ?case by simp
next
  case (Cons i rest)
  obtain node_id state' where c: "create_node state = (node_id, state')"
    by (cases "create_node state")
  have ids: "created_ids create_node (length (i # rest)) state
               = node_id # created_ids create_node (length rest) state'"
    using c by simp
  have fresh: "node_id \<notin> fst ` set acc"
    using Cons.prems unfolding ids by auto
  have d: "distinct (map fst (acc @ [(node_id, i)]) @ created_ids create_node (length rest) state')"
    using Cons.prems unfolding ids by auto
  have "register_loop create_node (i # rest) state acc
          = register_loop create_node rest state' (acc @ [(node_id, i)])"
    using c fresh by (simp add: update_fresh)
  also have "\<dots> = ((acc @ [(node_id, i)]) @ zip (created_ids create_node (length rest) state') rest,
                     state_after create_node (length rest) state')"
    by (rule Cons.IH[OF d])
  finally show ?case using c by simp
qed

lemma register_loop_state:
  "snd (register_loop create_node rng state acc) = state_after create_node (length rng) state"
proof (induction rng arbitrary: state acc)
  case Nil
  then show ?case by simp
next
  case (Cons i rest)
  obtain node_id state' where c: "create_node state = (node_id, state')"
    by (cases "create_node state")
  show ?case using c Cons.IH by simp
qed

lemma register_loop_distinct_keys:
  "distinct (map fst acc) \<Longrightarrow> distinct (map fst (fst (register_loop create_node rng state acc)))"
proof (induction rng arbitrary: state acc)
  case Nil
  then show ?case by simp
next
  case (Cons i rest)
  obtain node_id state' where c: "create_node state = (node_id, state')"
    by (cases "create_node state")
  have "distinct (map fst (AList.update node_id i acc))"
    using Cons.prems by (rule distinct_update)
  then show ?case using c Cons.IH by simp
qed

lemma length_created_ids: "length (created_ids create_node n state) = n"
proof (induction n arbitrary: state)
  case 0
  then show ?case by simp
next
  case (Suc n)
  obtain node_id state' where c: "create_node state = (node_id, state')"
    by (cases "create_node state")
  then show ?case using Suc by simp
qed

lemma map_of_zip_distinct_nth:
  "distinct xs \<Longrightarrow> length xs = length ys \<Longrightarrow> i < length xs \<Longrightarrow>
     map_of (zip xs ys) (xs ! i) = Some (ys ! i)"
proof (induction xs arbitrary: ys i)
  case Nil
  then show ?case by simp
next
  case (Cons x xs)
  then obtain y ys' where ys: "ys = y # ys'" by (cases ys) auto
  show ?case
  proof (cases i)
    case 0
    then show ?thesis by (simp add: ys)
  next
    case (Suc j)
    then have j: "j < length xs" using Cons.prems(3) by simp
    then have ne: "xs ! j \<noteq> x" using Cons.prems(1) by auto
    have "map_of (zip xs ys') (xs ! j) = Some (ys' ! j)"
      using Cons.IH[of ys' j] Cons.prems ys j by simp
    then show ?thesis using ne by (simp add: ys Suc)
  qed
qed

text \<open>
  C2. If the node ids that the \<open>num_nodes\<close> calls of \<open>create_node\<close> return are pairwise
  distinct, \<open>_register_nodes\<close> returns a mapping with exactly \<open>num_nodes\<close> entries, whose
  keys are these node ids in the order of the calls and whose partition indices are
  \<open>0, 1, ..., num_nodes - 1\<close> in that order: the id of the \<open>i\<close>-th call is mapped to \<open>i\<close>.
\<close>

theorem register_nodes_bijection:
  assumes "distinct (created_ids create_node (nat num_nodes) state)"
  shows "length (fst (register_nodes create_node num_nodes state)) = nat num_nodes
         \<and> map fst (fst (register_nodes create_node num_nodes state))
             = created_ids create_node (nat num_nodes) state
         \<and> map snd (fst (register_nodes create_node num_nodes state)) = map int [0..<nat num_nodes]
         \<and> (\<forall>i < nat num_nodes.
               map_of (fst (register_nodes create_node num_nodes state))
                 (created_ids create_node (nat num_nodes) state ! i) = Some (int i))"
proof -
  let ?ids = "created_ids create_node (nat num_nodes) state"
  have len: "length (py_range num_nodes) = nat num_nodes" by (simp add: py_range_def)
  have "register_nodes create_node num_nodes state
          = ([] @ zip (created_ids create_node (length (py_range num_nodes)) state) (py_range num_nodes),
             state_after create_node (length (py_range num_nodes)) state)"
    unfolding register_nodes_def
    by (rule register_loop_fresh) (simp add: len assms)
  then have m: "fst (register_nodes create_node num_nodes state) = zip ?ids (py_range num_nodes)"
    by (simp add: len)
  have l: "length ?ids = length (py_range num_nodes)" by (simp add: len length_created_ids)
  have at: "map_of (zip ?ids (py_range num_nodes)) (?ids ! i) = Some (int i)"
    if "i < nat num_nodes" for i
  proof -
    have "map_of (zip ?ids (py_range num_nodes)) (?ids ! i) = Some (py_range num_nodes ! i)"
      using assms l that by (intro map_of_zip_distinct_nth) (simp_all add: length_created_ids)
    then show ?thesis using that by (simp add: py_range_def)
  qed
  show ?thesis
    unfolding m using at l by (simp add: len length_created_ids py_range_def)
qed

theorem register_nodes_bijection_witness:
  "distinct (created_ids registry_create_node (nat 3) \<lparr>next_id = 100, nodes = []\<rparr>)
   \<and> fst (register_nodes registry_create_node 3 \<lparr>next_id = 100, nodes = []\<rparr>)
       = [(100, 0), (101, 1), (102, 2)]"
proof -
  have ids: "created_ids registry_create_node (nat 3) \<lparr>next_id = 100, nodes = []\<rparr> = [100, 101, 102]"
    by (simp add: registry_create_node_def numeral_3_eq_3)
  have d: "distinct (created_ids registry_create_node (nat 3) \<lparr>next_id = 100, nodes = []\<rparr>)"
    unfolding ids by simp
  have "map fst (fst (register_nodes registry_create_node 3 \<lparr>next_id = 100, nodes = []\<rparr>))
          = [100, 101, 102]
        \<and> map snd (fst (register_nodes registry_create_node 3 \<lparr>next_id = 100, nodes = []\<rparr>))
          = [0, 1, 2]"
    using register_nodes_bijection[OF d] ids by (simp add: numeral_3_eq_3)
  then have "fst (register_nodes registry_create_node 3 \<lparr>next_id = 100, nodes = []\<rparr>)
          = zip [100, 101, 102] [0, 1, 2]"
    by (metis zip_map_fst_snd)
  then show ?thesis using d by simp
qed

lemma node_states_loop_fresh:
  "distinct (map fst acc @ keys) \<Longrightarrow>
   node_states_loop keys store acc
     = (acc @ zip keys [length store..<length store + length keys],
        store @ replicate (length keys) \<lparr>run_contexts = []\<rparr>)"
proof (induction keys arbitrary: store acc)
  case Nil
  then show ?case by simp
next
  case (Cons node_id rest)
  let ?store' = "store @ [\<lparr>run_contexts = []\<rparr>]"
  have fresh: "node_id \<notin> fst ` set acc" using Cons.prems by auto
  have d: "distinct (map fst (acc @ [(node_id, length store)]) @ rest)"
    using Cons.prems by auto
  have "node_states_loop (node_id # rest) store acc
          = node_states_loop rest ?store' (acc @ [(node_id, length store)])"
    using fresh by (simp add: new_NodeState_def update_fresh)
  also have "\<dots> = ((acc @ [(node_id, length store)])
                       @ zip rest [length ?store'..<length ?store' + length rest],
                     ?store' @ replicate (length rest) \<lparr>run_contexts = []\<rparr>)"
    by (rule Cons.IH[OF d])
  also have "\<dots> = (acc @ zip (node_id # rest) [length store..<length store + length (node_id # rest)],
                     store @ replicate (length (node_id # rest)) \<lparr>run_contexts = []\<rparr>)"
  proof -
    have "length store < length store + Suc (length rest)" by simp
    then have "[length store..<length store + Suc (length rest)]
            = length store # [Suc (length store)..<length store + Suc (length rest)]"
      by (rule upt_conv_Cons)
    then have "zip (node_id # rest) [length store..<length store + length (node_id # rest)]
            = (node_id, length store) # zip rest [length ?store'..<length ?store' + length rest]"
      by simp
    then show ?thesis by (simp add: replicate_app_Cons_same)
  qed
  finally show ?case .
qed

text \<open>
  C6. After the setup phase of \<open>start_vce\<close> the dict \<open>node_states\<close> has the keys of the
  node-to-partition mapping, and the objects bound to them are the \<open>NodeState\<close> objects
  constructed in the loop, one per key: their references are pairwise different, none of
  them was in the store before, and each new object is an empty \<open>NodeState\<close>.
\<close>

theorem start_vce_isolated_node_states:
  "map fst (node_states_of (start_vce create_node json_loads n app backend cfg state wd store))
     = map fst (nodes_mapping_of (start_vce create_node json_loads n app backend cfg state wd store))
   \<and> map snd (node_states_of (start_vce create_node json_loads n app backend cfg state wd store))
     = [length store..<length store
          + length (nodes_mapping_of (start_vce create_node json_loads n app backend cfg state wd store))]
   \<and> distinct (map snd (node_states_of (start_vce create_node json_loads n app backend cfg state wd store)))
   \<and> store_of (start_vce create_node json_loads n app backend cfg state wd store)
     = store @ replicate
         (length (nodes_mapping_of (start_vce create_node json_loads n app backend cfg state wd store)))
         \<lparr>run_contexts = []\<rparr>"
proof -
  obtain nodes_mapping state' where r: "register_nodes create_node n state = (nodes_mapping, state')"
    by (cases "register_nodes create_node n state")
  have "distinct (map fst (fst (register_nodes create_node n state)))"
    unfolding register_nodes_def by (rule register_loop_distinct_keys) simp
  then have dk: "distinct (map fst [] @ map fst nodes_mapping)" using r by simp
  have l: "node_states_loop (map fst nodes_mapping) store []
             = ([] @ zip (map fst nodes_mapping)
                       [length store..<length store + length (map fst nodes_mapping)],
                store @ replicate (length (map fst nodes_mapping)) \<lparr>run_contexts = []\<rparr>)"
    by (rule node_states_loop_fresh[OF dk])
  show ?thesis
    unfolding start_vce_def r using l by simp
qed

theorem start_vce_isolated_node_states_witness:
  "node_states_of (start_vce registry_create_node example_json_loads 3 ''app'' ''ray'' ''{}''
                     \<lparr>next_id = 100, nodes = []\<rparr> ''.'' [\<lparr>run_contexts = [(7, ''old'')]\<rparr>])
     = [(100, 1), (101, 2), (102, 3)]"
proof -
  let ?r = "start_vce registry_create_node example_json_loads 3 ''app'' ''ray'' ''{}''
              \<lparr>next_id = 100, nodes = []\<rparr> ''.'' [\<lparr>run_contexts = [(7, ''old'')]\<rparr>]"
  have m: "nodes_mapping_of ?r = [(100, 0), (101, 1), (102, 2)]"
    by (simp add: start_vce_def register_nodes_def py_range_def registry_create_node_def
        numeral_3_eq_3 new_NodeState_def)
  have "map fst (node_states_of ?r) = [100, 101, 102] \<and> map snd (node_states_of ?r) = [1, 2, 3]"
    using start_vce_isolated_node_states [of registry_create_node example_json_loads 3 "''app''"
        "''ray''" "''{}''" "\<lparr>next_id = 100, nodes = []\<rparr>" "''.''"
        "[\<lparr>run_contexts = [(7, ''old'')]\<rparr>]"]
    unfolding m by (simp add: upt_rec)
  then have "node_states_of ?r = zip [100, 101, 102] [1, 2, 3]"
    by (metis zip_map_fst_snd)
  then show ?thesis by simp
qed

text \<open>
  C9. When \<open>backend_config_json_str\<close> is not valid JSON, \<open>start_vce\<close> raises the decoding
  error of \<open>json.loads\<close>, and the registration is not undone: the state is the one that the
  \<open>num_supernodes\<close> calls of \<open>create_node\<close> left, with every node still registered.
\<close>

theorem start_vce_bad_json_keeps_nodes:
  assumes "json_loads cfg = None"
  shows "raised (start_vce create_node json_loads n app backend cfg state wd store)
           = Some JSONDecodeError
         \<and> state_of (start_vce create_node json_loads n app backend cfg state wd store)
           = state_after create_node (nat n) state
         \<and> nodes_mapping_of (start_vce create_node json_loads n app backend cfg state wd store)
           = fst (register_nodes create_node n state)"
proof -
  obtain nodes_mapping state' where r: "register_nodes create_node n state = (nodes_mapping, state')"
    by (cases "register_nodes create_node n state")
  obtain node_states store' where l: "node_states_loop (map fst nodes_mapping) store [] = (node_states, store')"
    by (cases "node_states_loop (map fst nodes_mapping) store []")
  have "state' = state_after create_node (nat n) state"
    using r register_loop_state[of create_node "py_range n" state "[]"]
    by (simp add: register_nodes_def py_range_def)
  then show ?thesis
    unfolding start_vce_def r using l assms by simp
qed

theorem start_vce_bad_json_keeps_nodes_witness:
  "example_json_loads ''{'' = None
   \<and> raised (start_vce registry_create_node example_json_loads 3 ''app'' ''ray'' ''{''
               \<lparr>next_id = 100, nodes = []\<rparr> ''.'' []) = Some JSONDecodeError
   \<and> nodes (state_of (start_vce registry_create_node example_json_loads 3 ''app'' ''ray'' ''{''
               \<lparr>next_id = 100, nodes = []\<rparr> ''.'' []))
       = [(100, True), (101, True), (102, True)]"
proof -
  have bad: "example_json_loads ''{'' = None" by (simp add: example_json_loads_def)
  have "state_after registry_create_node (nat 3) \<lparr>next_id = 100, nodes = []\<rparr>
          = \<lparr>next_id = 103, nodes = [(100, True), (101, True), (102, True)]\<rparr>"
    by (simp add: registry_create_node_def numeral_3_eq_3)
  then show ?thesis
    using start_vce_bad_json_keeps_nodes[where json_loads = example_json_loads and cfg = "''{''"
        and create_node = registry_create_node and n = 3 and app = "''app''"
        and backend = "''ray''" and state = "\<lparr>next_id = 100, nodes = []\<rparr>"
        and wd = "''.''" and store = "[]", OF bad] bad
    by simp
qed


section \<open>Properties of the image matrix\<close>

text \<open>
  C10. The filter of the supernode images is true of every base image, because the left
  operand of its \<open>or\<close> is a tuple of one element. So \<open>generate_binary_images\<close> filters
  nothing out: it returns one supernode image per base image, in order, and in the script
  these are the 19 base images (Ubuntu for the three Python versions, Alpine, and the five
  CUDA variants for the three Python versions).
\<close>

theorem supernode_filter_keeps_every_image:
  "truthy (supernode_filter img)
   \<and> generate_binary_images ''supernode'' base_images
         (Some tag_latest_alpine_with_flwr_version) (Some supernode_filter)
       = map (\<lambda>img. new_binary_image ''supernode'' img (Some tag_latest_alpine_with_flwr_version))
           base_images
   \<and> map base_image (supernode_images flwr_ver) = map tag (base_images_of flwr_ver)
   \<and> length (supernode_images flwr_ver) = 19"
proof -
  have t: "\<And>img. truthy (supernode_filter img)"
    by (simp add: supernode_filter_def py_or_def)
  have g: "generate_binary_images ''supernode'' imgs
         (Some tag_latest_alpine_with_flwr_version) (Some supernode_filter)
       = map (\<lambda>img. new_binary_image ''supernode'' img (Some tag_latest_alpine_with_flwr_version))
           imgs" for imgs
    by (simp add: generate_binary_images_def t)
  have l: "length (base_images_of flwr_ver) = 19"
    by (simp add: base_images_of_def generate_base_images_def SUPPORTED_PYTHON_VERSIONS_def
        UBUNTU_VARIANTS_def ALPINE_VARIANTS_def CUDA_VARIANTS_def CUDA_VERSIONS_def)
  have b: "map base_image (supernode_images flwr_ver) = map tag (base_images_of flwr_ver)"
    unfolding supernode_images_def g by (simp add: new_binary_image_def comp_def)
  have "length (supernode_images flwr_ver) = 19"
    unfolding supernode_images_def g using l by simp
  then show ?thesis using t g b by simp
qed


theorem supernode_filter_keeps_every_image_witness:
  "map base_image (supernode_images ''1.13.0'') ! 3 = ''1.13.0-py3.11-alpine3.19''
   \<and> map base_image (supernode_images ''1.13.0'') ! 4 = ''1.13.0-py3.9-cu11.2-ubuntu24.04''
   \<and> map base_image (supernode_images ''1.13.0'') ! 1 = ''1.13.0-py3.10-ubuntu24.04''"
proof -
  have "map base_image (supernode_images ''1.13.0'') = map tag (base_images_of ''1.13.0'')"
    using supernode_filter_keeps_every_image [where flwr_ver = "''1.13.0''"] by simp
  then show ?thesis
    by (simp add: base_images_of_def generate_base_images_def SUPPORTED_PYTHON_VERSIONS_def
        UBUNTU_VARIANTS_def ALPINE_VARIANTS_def CUDA_VARIANTS_def CUDA_VERSIONS_def
        new_base_image_def Variant_tag_def base_tag_def cuda_tag_def
        LATEST_SUPPORTED_PYTHON_VERSION_def LATEST_SUPPORTED_CUDA_VERSIONS_def)
qed


section \<open>Properties of the rendezvous\<close>

lemma evolves_length: "evolves st st' \<Longrightarrow> length st' = length st"
  by (simp add: evolves_def)

lemma evolves_refl: "evolves st st"
  by (simp add: evolves_def)

lemma evolves_trans: "evolves a b \<Longrightarrow> evolves b c \<Longrightarrow> evolves a c"
  by (simp add: evolves_def)

lemma evolves_transition:
  "new \<noteq> Replied \<Longrightarrow> new \<noteq> Errored \<Longrightarrow> expected \<noteq> Replied \<Longrightarrow> expected \<noteq> Errored \<Longrightarrow>
     evolves st (transition st tid expected new)"
  by (simp add: evolves_def transition_def nth_list_update consistent_def)

lemma evolves_fold:
  "(\<And>s x. evolves s (f x s)) \<Longrightarrow> evolves st (fold f xs st)"
proof (induction xs arbitrary: st)
  case Nil
  then show ?case by (simp add: evolves_refl)
next
  case (Cons x xs)
  have "evolves st (f x st)" by (rule Cons.prems)
  moreover have "evolves (f x st) (fold f xs (f x st))" using Cons.prems by (rule Cons.IH)
  ultimately show ?case using evolves_trans by simp
qed

lemma evolves_pull: "evolves st (snd (pull_pending st node))"
  unfolding pull_pending_def snd_conv
  by (rule evolves_fold) (simp add: evolves_transition)

lemma evolves_submit: "evolves st (snd (submit_reply st tid r))"
  by (cases r) (simp_all add: evolves_def submit_reply_def nth_list_update consistent_def)

lemma evolves_reap: "evolves st (snd (reap_expired st now))"
  by (auto simp: evolves_def reap_expired_def expired_def consistent_def)

lemma evolves_action: "evolves st (apply_action a st)"
  by (cases a) (simp_all add: evolves_pull evolves_submit)

lemma evolves_poll: "evolves st (poll tids now left acts st)"
proof (induction left arbitrary: now acts st)
  case 0
  then show ?case by (simp add: evolves_refl)
next
  case (Suc left)
  let ?st1 = "snd (reap_expired st now)"
  have r: "evolves st ?st1" by (rule evolves_reap)
  show ?case
  proof (cases "list_all (\<lambda>tid. terminal (status (?st1 ! tid))) tids")
    case True
    then show ?thesis using r by (simp add: Let_def)
  next
    case False
    show ?thesis
    proof (cases acts)
      case Nil
      have "evolves ?st1 (poll tids (Suc now) left [] ?st1)" by (rule Suc.IH)
      then have "evolves st (poll tids (Suc now) left [] ?st1)"
        using r evolves_trans by blast
      then show ?thesis using False Nil by (simp add: Let_def)
    next
      case (Cons a rest)
      have "evolves ?st1 (apply_action a ?st1)" by (rule evolves_action)
      moreover have "evolves (apply_action a ?st1) (poll tids (Suc now) left rest (apply_action a ?st1))"
        by (rule Suc.IH)
      ultimately have "evolves st (poll tids (Suc now) left rest (apply_action a ?st1))"
        using r evolves_trans by blast
      then show ?thesis using False Cons by (simp add: Let_def)
    qed
  qed
qed

lemma evolves_force: "evolves st (force_timeout tids st)"
  unfolding force_timeout_def
proof (rule evolves_fold)
  fix s x
  have "evolves s (transition s x Pending TimedOut)" by (simp add: evolves_transition)
  moreover have "evolves (transition s x Pending TimedOut)
                   (transition (transition s x Pending TimedOut) x InFlight TimedOut)"
    by (simp add: evolves_transition)
  ultimately show "evolves s (transition (transition s x Pending TimedOut) x InFlight TimedOut)"
    by (rule evolves_trans)
qed


lemma create_all_eq:
  "create_all st rqs timeout now
     = ([length st..<length st + length rqs], st @ map (fresh_task timeout now) rqs)"
proof (induction rqs arbitrary: st)
  case Nil
  then show ?case by simp
next
  case (Cons rq rqs)
  let ?st' = "st @ [fresh_task timeout now rq]"
  have c: "create_task st (req_run rq) (req_group rq) (req_dst rq) (req_kind rq)
             (req_payload rq) timeout now = (length st, ?st')"
    by (simp add: create_task_def fresh_task_def)
  have ih: "create_all ?st' rqs timeout now
              = ([length ?st'..<length ?st' + length rqs], ?st' @ map (fresh_task timeout now) rqs)"
    by (rule Cons.IH)
  have "length st < length st + Suc (length rqs)" by simp
  then have u: "[length st..<length st + Suc (length rqs)]
                  = length st # [Suc (length st)..<length st + Suc (length rqs)]"
    by (rule upt_conv_Cons)
  show ?case using c ih u by simp
qed

lemma force_step_nth:
  "i < length s \<Longrightarrow>
     transition (transition s x Pending TimedOut) x InFlight TimedOut ! i
       = (if i = x \<and> (status (s ! i) = Pending \<or> status (s ! i) = InFlight)
          then (s ! i)\<lparr>status := TimedOut\<rparr> else s ! i)"
  by (auto simp: transition_def nth_list_update)

lemma force_step_length:
  "length (transition (transition s x Pending TimedOut) x InFlight TimedOut) = length s"
  by (simp add: transition_def)

lemma force_timeout_length: "length (force_timeout tids st) = length st"
  unfolding force_timeout_def
  by (induction tids arbitrary: st) (simp_all add: force_step_length)

lemma force_timeout_terminal:
  "i < length st \<Longrightarrow> i \<in> set tids \<Longrightarrow> terminal (status (force_timeout tids st ! i))"
  unfolding force_timeout_def
proof (induction tids arbitrary: st rule: rev_induct)
  case Nil
  then show ?case by simp
next
  case (snoc x xs)
  let ?f = "\<lambda>tid s. transition (transition s tid Pending TimedOut) tid InFlight TimedOut"
  let ?s = "fold ?f xs st"
  have len: "length ?s = length st"
    using force_timeout_length[of xs st] by (simp add: force_timeout_def)
  have i: "i < length ?s" using snoc.prems(1) len by simp
  show ?case
  proof (cases "i = x")
    case True
    then show ?thesis
      using i by (cases "status (?s ! i)") (simp_all add: force_step_nth terminal_def)
  next
    case False
    then have "i \<in> set xs" using snoc.prems(2) by simp
    then have "terminal (status (?s ! i))" using snoc.IH snoc.prems(1) by simp
    then show ?thesis using False i by (simp add: force_step_nth)
  qed
qed

lemma entry_of_absent:
  "consistent t \<Longrightarrow> terminal (status t) \<Longrightarrow> (entry_of t = Absence) = (status t = TimedOut)"
  by (cases "task_reply t") (auto simp: consistent_def terminal_def entry_of_def)

lemma consistent_fresh: "consistent (fresh_task timeout now rq)"
  by (simp add: consistent_def fresh_task_def)

lemma evolvesD:
  "evolves st st' \<Longrightarrow> i < length st \<Longrightarrow>
     length st' = length st \<and> task_dst (st' ! i) = task_dst (st ! i)
     \<and> task_group (st' ! i) = task_group (st ! i)
     \<and> (consistent (st ! i) \<longrightarrow> consistent (st' ! i))"
  by (simp add: evolves_def)

lemma rendezvous_eq:
  "rendezvous st requests timeout now acts
     = (map (\<lambda>tid. entry_of
                (force_timeout [length st..<length st + length requests]
                   (poll [length st..<length st + length requests] now timeout acts
                      (st @ map (fresh_task timeout now) requests)) ! tid))
          [length st..<length st + length requests],
        force_timeout [length st..<length st + length requests]
          (poll [length st..<length st + length requests] now timeout acts
             (st @ map (fresh_task timeout now) requests)))"
  by (simp add: rendezvous_def create_all_eq Let_def)

lemma rendezvous_tasks:
  assumes "i < length requests"
  shows "length (snd (rendezvous st requests timeout now acts)) = length st + length requests"
    and "fst (rendezvous st requests timeout now acts) ! i
           = entry_of (snd (rendezvous st requests timeout now acts) ! (length st + i))"
    and "task_dst (snd (rendezvous st requests timeout now acts) ! (length st + i))
           = req_dst (requests ! i)"
    and "task_group (snd (rendezvous st requests timeout now acts) ! (length st + i))
           = req_group (requests ! i)"
    and "consistent (snd (rendezvous st requests timeout now acts) ! (length st + i))"
    and "terminal (status (snd (rendezvous st requests timeout now acts) ! (length st + i)))"
proof -
  let ?tids = "[length st..<length st + length requests]"
  let ?st1 = "st @ map (fresh_task timeout now) requests"
  let ?st2 = "poll ?tids now timeout acts ?st1"
  let ?st3 = "force_timeout ?tids ?st2"
  have s: "snd (rendezvous st requests timeout now acts) = ?st3"
    and f: "fst (rendezvous st requests timeout now acts) = map (\<lambda>tid. entry_of (?st3 ! tid)) ?tids"
    by (simp_all add: rendezvous_eq)
  have e: "evolves ?st1 ?st3"
    using evolves_poll[of ?st1 ?tids now timeout acts] evolves_force[of ?st2 ?tids]
    by (rule evolves_trans)
  have e2: "evolves ?st1 ?st2" by (rule evolves_poll)
  have i1: "length st + i < length ?st1" using assms by simp
  have at1: "?st1 ! (length st + i) = fresh_task timeout now (requests ! i)"
    using assms by (simp add: nth_append)
  note d = evolvesD[OF e i1]
  show "length (snd (rendezvous st requests timeout now acts)) = length st + length requests"
    unfolding s using d by simp
  show "fst (rendezvous st requests timeout now acts) ! i
           = entry_of (snd (rendezvous st requests timeout now acts) ! (length st + i))"
    unfolding s f using assms by simp
  show "task_dst (snd (rendezvous st requests timeout now acts) ! (length st + i))
           = req_dst (requests ! i)"
    unfolding s using d at1 by (simp add: fresh_task_def)
  show "task_group (snd (rendezvous st requests timeout now acts) ! (length st + i))
           = req_group (requests ! i)"
    unfolding s using d at1 by (simp add: fresh_task_def)
  show "consistent (snd (rendezvous st requests timeout now acts) ! (length st + i))"
    unfolding s using d at1 consistent_fresh by simp
  have "length st + i < length ?st2" using evolvesD[OF e2 i1] i1 by simp
  moreover have "length st + i \<in> set ?tids" using assms by simp
  ultimately show "terminal (status (snd (rendezvous st requests timeout now acts) ! (length st + i)))"
    unfolding s by (rule force_timeout_terminal)
qed


lemma terminal_cases:
  "terminal s \<Longrightarrow> (s \<noteq> TimedOut) = (s = Replied \<or> s = Errored)"
  by (auto simp: terminal_def)

lemma rendezvous_reply_count:
  "length (filter (\<lambda>e. e \<noteq> Absence) (fst (rendezvous st requests timeout now acts)))
     = replied_in (snd (rendezvous st requests timeout now acts))
         [length st..<length st + length requests]"
proof -
  let ?R = "rendezvous st requests timeout now acts"
  let ?tids = "[length st..<length st + length requests]"
  have f: "fst ?R = map (\<lambda>tid. entry_of (snd ?R ! tid)) ?tids"
    by (simp add: rendezvous_eq)
  have iff: "(entry_of (snd ?R ! tid) \<noteq> Absence)
               = (status (snd ?R ! tid) = Replied \<or> status (snd ?R ! tid) = Errored)"
    if "tid \<in> set ?tids" for tid
  proof -
    from that obtain i where i: "i < length requests" "tid = length st + i"
      by (auto simp: nat_le_iff_add)
    have c: "consistent (snd ?R ! tid)" and t: "terminal (status (snd ?R ! tid))"
      using rendezvous_tasks(5,6)[OF i(1), of st timeout now acts] i(2) by simp_all
    show ?thesis
      using entry_of_absent[OF c t] terminal_cases[OF t] by simp
  qed
  have "length (filter (\<lambda>e. e \<noteq> Absence) (fst ?R))
          = length (filter (\<lambda>tid. entry_of (snd ?R ! tid) \<noteq> Absence) ?tids)"
    by (subst f) (simp add: filter_map comp_def)
  also have "filter (\<lambda>tid. entry_of (snd ?R ! tid) \<noteq> Absence) ?tids
          = filter (\<lambda>tid. status (snd ?R ! tid) = Replied \<or> status (snd ?R ! tid) = Errored) ?tids"
    by (rule filter_cong[OF refl]) (rule iff)
  finally show ?thesis by (simp add: replied_in_def)
qed

lemma poll_step:
  assumes "0 < left" and "snd (reap_expired st now) = st1"
    and "\<not> list_all (\<lambda>tid. terminal (status (st1 ! tid))) tids"
    and "apply_action a st1 = st2"
  shows "poll tids now left (a # rest) st = poll tids (Suc now) (left - 1) rest st2"
proof -
  obtain l where l: "left = Suc l" using assms(1) by (cases left) auto
  show ?thesis using assms(2,3,4) by (simp add: l Let_def)
qed

lemma poll_idle:
  assumes "0 < left" and "snd (reap_expired st now) = st1"
    and "\<not> list_all (\<lambda>tid. terminal (status (st1 ! tid))) tids"
  shows "poll tids now left [] st = poll tids (Suc now) (left - 1) [] st1"
proof -
  obtain l where l: "left = Suc l" using assms(1) by (cases left) auto
  show ?thesis using assms(2,3) by (simp add: l Let_def)
qed

lemma r1_reap:
  "now \<le> 6 \<Longrightarrow> snd (reap_expired [r1_task 1 a x, r1_task 2 b y, r1_task 3 c z] now)
     = [r1_task 1 a x, r1_task 2 b y, r1_task 3 c z]"
  by (simp add: reap_expired_def expired_def r1_task_def)

lemma r1_waiting:
  "\<not> list_all (\<lambda>tid. terminal (status ([r1_task 1 a x, r1_task 2 b y, r1_task 3 Pending z] ! tid)))
       [0, 1, 2]"
  by (simp add: terminal_def r1_task_def)

lemma r1_poll:
  "poll [0, 1, 2] 0 6 r1_actions
     [r1_task 1 Pending None, r1_task 2 Pending None, r1_task 3 Pending None]
   = [r1_task 1 Replied (Some (Result ''a'')), r1_task 2 Replied (Some (Result ''b'')),
      r1_task 3 Pending None]"
proof -
  let ?tids = "[0, 1, 2] :: nat list"
  have "poll ?tids 0 6 r1_actions
          [r1_task 1 Pending None, r1_task 2 Pending None, r1_task 3 Pending None]
        = poll ?tids 1 5 [Pull 1, Submit 1 (Result ''b''), Submit 0 (Result ''a'')]
          [r1_task 1 Pending None, r1_task 2 InFlight None, r1_task 3 Pending None]"
    unfolding r1_actions_def
    by (subst poll_step[OF _ r1_reap r1_waiting])
       (simp_all add: pull_pending_def pending_for_def transition_def r1_task_def eval_nat_numeral)
  also have "\<dots> = poll ?tids 2 4 [Submit 1 (Result ''b''), Submit 0 (Result ''a'')]
          [r1_task 1 InFlight None, r1_task 2 InFlight None, r1_task 3 Pending None]"
    by (subst poll_step[OF _ r1_reap r1_waiting])
       (simp_all add: pull_pending_def pending_for_def transition_def r1_task_def eval_nat_numeral)
  also have "\<dots> = poll ?tids 3 3 [Submit 0 (Result ''a'')]
          [r1_task 1 InFlight None, r1_task 2 Replied (Some (Result ''b'')), r1_task 3 Pending None]"
    by (subst poll_step[OF _ r1_reap r1_waiting])
       (simp_all add: submit_reply_def r1_task_def eval_nat_numeral)
  also have "\<dots> = poll ?tids 4 2 []
          [r1_task 1 Replied (Some (Result ''a'')), r1_task 2 Replied (Some (Result ''b'')),
           r1_task 3 Pending None]"
    by (subst poll_step[OF _ r1_reap r1_waiting])
       (simp_all add: submit_reply_def r1_task_def eval_nat_numeral)
  also have "\<dots> = poll ?tids 5 1 []
          [r1_task 1 Replied (Some (Result ''a'')), r1_task 2 Replied (Some (Result ''b'')),
           r1_task 3 Pending None]"
    by (subst poll_idle[OF _ r1_reap r1_waiting]) (simp_all add: eval_nat_numeral)
  also have "\<dots> = poll ?tids 6 0 []
          [r1_task 1 Replied (Some (Result ''a'')), r1_task 2 Replied (Some (Result ''b'')),
           r1_task 3 Pending None]"
    by (subst poll_idle[OF _ r1_reap r1_waiting]) (simp_all add: eval_nat_numeral)
  finally show ?thesis by simp
qed

lemma r1_run:
  "rendezvous [] r1_requests 6 0 r1_actions
     = ([ReplyEntry (Result ''a''), ReplyEntry (Result ''b''), Absence],
        [r1_task 1 Replied (Some (Result ''a'')), r1_task 2 Replied (Some (Result ''b'')),
         r1_task 3 TimedOut None])"
proof -
  have c: "create_all [] r1_requests 6 0
             = ([0, 1, 2], [r1_task 1 Pending None, r1_task 2 Pending None, r1_task 3 Pending None])"
    by (simp add: r1_requests_def create_task_def r1_task_def)
  have f: "force_timeout [0, 1, 2]
             [r1_task 1 Replied (Some (Result ''a'')), r1_task 2 Replied (Some (Result ''b'')),
              r1_task 3 Pending None]
           = [r1_task 1 Replied (Some (Result ''a'')), r1_task 2 Replied (Some (Result ''b'')),
              r1_task 3 TimedOut None]"
    by (simp add: force_timeout_def transition_def r1_task_def eval_nat_numeral)
  show ?thesis
    unfolding rendezvous_def c prod.case r1_poll f Let_def
    by (simp add: entry_of_def r1_task_def)
qed

lemma transition_length: "length (transition st tid a b) = length st"
  by (simp add: transition_def)

lemma transition_nth:
  "i < length st \<Longrightarrow>
     transition st tid a b ! i
       = (if i = tid \<and> status (st ! i) = a then (st ! i)\<lparr>status := b\<rparr> else st ! i)"
  by (auto simp: transition_def nth_list_update)

lemma fold_transition_length:
  "length (fold (\<lambda>tid s. transition s tid a b) tids st) = length st"
  by (induction tids arbitrary: st) (simp_all add: transition_length)

lemma fold_transition_nth:
  "i < length st \<Longrightarrow> a \<noteq> b \<Longrightarrow>
     fold (\<lambda>tid s. transition s tid a b) tids st ! i
       = (if i \<in> set tids \<and> status (st ! i) = a then (st ! i)\<lparr>status := b\<rparr> else st ! i)"
proof (induction tids arbitrary: st)
  case Nil
  then show ?case by simp
next
  case (Cons x xs)
  have l: "i < length (transition st x a b)" using Cons.prems(1) by (simp add: transition_length)
  have "fold (\<lambda>tid s. transition s tid a b) (x # xs) st ! i
          = fold (\<lambda>tid s. transition s tid a b) xs (transition st x a b) ! i"
    by simp
  also have "\<dots> = (if i \<in> set xs \<and> status (transition st x a b ! i) = a
                     then (transition st x a b ! i)\<lparr>status := b\<rparr> else transition st x a b ! i)"
    using Cons.IH[OF l Cons.prems(2)] .
  finally show ?case
    using Cons.prems by (auto simp: transition_nth)
qed

lemma pull_pending_nth:
  assumes "i < length st"
  shows "apply_action (Pull node) st ! i = task_step (Pull node) i (st ! i)"
proof -
  have m: "i \<in> set (pending_for st node) \<longleftrightarrow> task_dst (st ! i) = node \<and> status (st ! i) = Pending"
    using assms by (auto simp: pending_for_def)
  have "apply_action (Pull node) st ! i
          = (if i \<in> set (pending_for st node) \<and> status (st ! i) = Pending
             then (st ! i)\<lparr>status := InFlight\<rparr> else st ! i)"
    using assms by (simp add: pull_pending_def fold_transition_nth)
  then show ?thesis using m by auto
qed

lemma submit_reply_nth:
  assumes "i < length st"
  shows "apply_action (Submit x r) st ! i = task_step (Submit x r) i (st ! i)"
  using assms by (auto simp: submit_reply_def nth_list_update)

lemma apply_action_nth:
  "i < length st \<Longrightarrow> apply_action a st ! i = task_step a i (st ! i)"
  by (cases a) (simp_all only: pull_pending_nth submit_reply_nth)

lemma apply_action_length: "length (apply_action a st) = length st"
  using evolves_action by (rule evolves_length)

lemma reap_length: "length (snd (reap_expired st now)) = length st"
  by (simp add: reap_expired_def)

lemma reap_nth_alive:
  "i < length st \<Longrightarrow> now \<le> created_at (st ! i) + ttl (st ! i) \<Longrightarrow>
     snd (reap_expired st now) ! i = st ! i"
  by (simp add: reap_expired_def expired_def)

lemma task_step_times:
  "created_at (task_step a tid t) = created_at t \<and> ttl (task_step a tid t) = ttl t
   \<and> task_dst (task_step a tid t) = task_dst t \<and> task_group (task_step a tid t) = task_group t"
  by (cases a) simp_all

lemma task_step_terminal: "terminal (status t) \<Longrightarrow> task_step a tid t = t"
  by (cases a) (auto simp: terminal_def)

lemma run_task_terminal: "terminal (status t) \<Longrightarrow> run_task tid acts t = t"
  unfolding run_task_def
  by (induction acts) (simp_all add: task_step_terminal)

lemma run_task_Cons: "run_task tid (a # acts) t = run_task tid acts (task_step a tid t)"
  by (simp add: run_task_def)

lemma run_task_Nil: "run_task tid [] t = t"
  by (simp add: run_task_def)

lemma poll_length: "length (poll tids now left acts st) = length st"
  using evolves_poll by (rule evolves_length)

lemma poll_nth:
  assumes "tid < length st" and "tid \<in> set tids"
    and "now + left \<le> created_at (st ! tid) + ttl (st ! tid)"
  shows "poll tids now left acts st ! tid = run_task tid (take left acts) (st ! tid)"
  using assms
proof (induction left arbitrary: now acts st)
  case 0
  then show ?case by (simp add: run_task_Nil)
next
  case (Suc left)
  let ?st1 = "snd (reap_expired st now)"
  have alive: "now \<le> created_at (st ! tid) + ttl (st ! tid)" using Suc.prems(3) by simp
  have same: "?st1 ! tid = st ! tid" using Suc.prems(1) alive by (rule reap_nth_alive)
  have len1: "tid < length ?st1" using Suc.prems(1) by (simp add: reap_length)
  show ?case
  proof (cases "list_all (\<lambda>tid. terminal (status (?st1 ! tid))) tids")
    case True
    then have "terminal (status (?st1 ! tid))" using Suc.prems(2) by (simp add: list_all_iff)
    then have "run_task tid (take (Suc left) acts) (st ! tid) = st ! tid"
      unfolding same by (rule run_task_terminal)
    moreover have "poll tids now (Suc left) acts st = ?st1" using True by (simp add: Let_def)
    ultimately show ?thesis using same by simp
  next
    case False
    show ?thesis
    proof (cases acts)
      case Nil
      have "poll tids (Suc now) left [] ?st1 ! tid = run_task tid (take left []) (?st1 ! tid)"
        using len1 Suc.prems(2) Suc.prems(3) unfolding same[symmetric]
        by (intro Suc.IH) simp_all
      moreover have "poll tids now (Suc left) acts st = poll tids (Suc now) left [] ?st1"
        using False Nil by (simp add: Let_def)
      ultimately show ?thesis using Nil same by (simp add: run_task_Nil)
    next
      case (Cons a rest)
      let ?st2 = "apply_action a ?st1"
      have at2: "?st2 ! tid = task_step a tid (st ! tid)"
        using apply_action_nth[OF len1, of a] same by simp
      have len2: "tid < length ?st2" using len1 by (simp add: apply_action_length)
      have t2: "Suc now + left \<le> created_at (?st2 ! tid) + ttl (?st2 ! tid)"
        unfolding at2 using Suc.prems(3) task_step_times[of a tid "st ! tid"] by simp
      have "poll tids (Suc now) left rest ?st2 ! tid = run_task tid (take left rest) (?st2 ! tid)"
        using len2 Suc.prems(2) t2 by (rule Suc.IH)
      moreover have "poll tids now (Suc left) acts st = poll tids (Suc now) left rest ?st2"
        using False Cons by (simp add: Let_def)
      ultimately show ?thesis using Cons at2 by (simp add: run_task_Cons)
    qed
  qed
qed


lemma force_timeout_nth:
  "i < length st \<Longrightarrow>
     force_timeout tids st ! i
       = (if i \<in> set tids \<and> (status (st ! i) = Pending \<or> status (st ! i) = InFlight)
          then (st ! i)\<lparr>status := TimedOut\<rparr> else st ! i)"
  unfolding force_timeout_def
proof (induction tids arbitrary: st)
  case Nil
  then show ?case by simp
next
  case (Cons x xs)
  let ?s = "transition (transition st x Pending TimedOut) x InFlight TimedOut"
  have l: "i < length ?s" using Cons.prems by (simp add: force_step_length)
  have at: "?s ! i = (if i = x \<and> (status (st ! i) = Pending \<or> status (st ! i) = InFlight)
                      then (st ! i)\<lparr>status := TimedOut\<rparr> else st ! i)"
    using Cons.prems by (rule force_step_nth)
  show ?case
    using Cons.IH[OF l] at by auto
qed

lemma run_task_reply:
  assumes "task_dst t = d" and "task_reply t = None"
    and "(status t = Pending \<and> \<not> pulled) \<or> (status t = InFlight \<and> pulled)"
  shows "(case participant_reply d tid pulled acts of
            None \<Rightarrow> (status (run_task tid acts t) = Pending \<or> status (run_task tid acts t) = InFlight)
                     \<and> task_reply (run_task tid acts t) = None
          | Some r \<Rightarrow> status (run_task tid acts t) = status_for (Some r)
                     \<and> task_reply (run_task tid acts t) = Some r)"
  using assms
proof (induction acts arbitrary: t pulled)
  case Nil
  then show ?case by (auto simp: run_task_Nil)
next
  case (Cons a acts)
  show ?case
  proof (cases a)
    case (Pull node)
    let ?t = "task_step a tid t"
    have 1: "task_dst ?t = d" using Cons.prems(1) task_step_times[of a tid t] by simp
    have 2: "task_reply ?t = None" using Cons.prems(2) Pull by simp
    have 3: "(status ?t = Pending \<and> \<not> (pulled \<or> node = d))
             \<or> (status ?t = InFlight \<and> (pulled \<or> node = d))"
      using Cons.prems(1,3) Pull by auto
    have rc: "run_task tid (a # acts) t = run_task tid acts ?t" by (rule run_task_Cons)
    have pr: "participant_reply d tid pulled (a # acts)
                = participant_reply d tid (pulled \<or> node = d) acts"
      using Pull by simp
    show ?thesis
      unfolding rc pr using Cons.IH[OF 1 2 3] .
  next
    case (Submit x r)
    show ?thesis
    proof (cases "x = tid \<and> pulled")
      case True
      then have inflight: "status t = InFlight" using Cons.prems(3) by auto
      let ?t = "t\<lparr>status := (case r of Result _ \<Rightarrow> Replied | Failure _ \<Rightarrow> Errored),
                  task_reply := Some r\<rparr>"
      have step: "task_step a tid t = ?t" using True inflight Submit by simp
      have "terminal (status ?t)" by (cases r) (simp_all add: terminal_def)
      then have "run_task tid acts ?t = ?t" by (rule run_task_terminal)
      then have "run_task tid (a # acts) t = ?t" using step by (simp add: run_task_Cons)
      moreover have "participant_reply d tid pulled (a # acts) = Some r"
        using True Submit by simp
      ultimately show ?thesis by (cases r) simp_all
    next
      case False
      then have step: "task_step a tid t = t" using Cons.prems(3) Submit by auto
      have pr: "participant_reply d tid pulled (a # acts) = participant_reply d tid pulled acts"
        using False Submit by auto
      have rc: "run_task tid (a # acts) t = run_task tid acts t"
        using step by (simp add: run_task_Cons)
      show ?thesis
        unfolding rc pr using Cons.IH[OF Cons.prems] .
    qed
  qed
qed

lemma run_task_fields:
  "task_dst (run_task tid acts t) = task_dst t \<and> task_group (run_task tid acts t) = task_group t"
  unfolding run_task_def
  by (induction acts arbitrary: t) (simp_all add: task_step_times)

lemma rendezvous_nth:
  assumes i: "i < length requests"
  shows "snd (rendezvous st requests timeout now acts) ! (length st + i)
           = (let t = run_task (length st + i) (take timeout acts)
                        (fresh_task timeout now (requests ! i))
              in if status t = Pending \<or> status t = InFlight then t\<lparr>status := TimedOut\<rparr> else t)"
proof -
  let ?tids = "[length st..<length st + length requests]"
  let ?st1 = "st @ map (fresh_task timeout now) requests"
  let ?st2 = "poll ?tids now timeout acts ?st1"
  let ?tid = "length st + i"
  have s: "snd (rendezvous st requests timeout now acts) = force_timeout ?tids ?st2"
    by (simp add: rendezvous_eq)
  have l1: "?tid < length ?st1" using i by simp
  have mem: "?tid \<in> set ?tids" using i by simp
  have at1: "?st1 ! ?tid = fresh_task timeout now (requests ! i)"
    using i by (simp add: nth_append)
  have alive: "now + timeout \<le> created_at (?st1 ! ?tid) + ttl (?st1 ! ?tid)"
    unfolding at1 by (simp add: fresh_task_def)
  have at2: "?st2 ! ?tid = run_task ?tid (take timeout acts) (fresh_task timeout now (requests ! i))"
    using poll_nth[OF l1 mem alive, of acts] at1 by simp
  have l2: "?tid < length ?st2" using l1 by (simp add: poll_length)
  show ?thesis
    unfolding s using force_timeout_nth[OF l2, of ?tids] mem at2 by (simp add: Let_def)
qed

lemma rendezvous_task_reply:
  assumes i: "i < length requests"
  shows "status (snd (rendezvous st requests timeout now acts) ! (length st + i))
           = status_for (reply_within st requests timeout acts i)"
    and "task_reply (snd (rendezvous st requests timeout now acts) ! (length st + i))
           = reply_within st requests timeout acts i"
    and "entry_of (snd (rendezvous st requests timeout now acts) ! (length st + i))
           = entry_for (reply_within st requests timeout acts i)"
proof -
  let ?t0 = "fresh_task timeout now (requests ! i)"
  let ?t = "run_task (length st + i) (take timeout acts) ?t0"
  let ?f = "snd (rendezvous st requests timeout now acts) ! (length st + i)"
  have f: "?f = (if status ?t = Pending \<or> status ?t = InFlight then ?t\<lparr>status := TimedOut\<rparr> else ?t)"
    using rendezvous_nth[OF i, of st timeout now acts] by (simp add: Let_def)
  have c: "(case participant_reply (req_dst (requests ! i)) (length st + i) False (take timeout acts) of
              None \<Rightarrow> (status ?t = Pending \<or> status ?t = InFlight) \<and> task_reply ?t = None
            | Some r \<Rightarrow> status ?t = status_for (Some r) \<and> task_reply ?t = Some r)"
    by (rule run_task_reply) (simp_all add: fresh_task_def)
  show "status ?f = status_for (reply_within st requests timeout acts i)"
  proof (cases "reply_within st requests timeout acts i")
    case None
    then show ?thesis using c f by (auto simp: reply_within_def)
  next
    case (Some r)
    then show ?thesis using c f by (cases r) (auto simp: reply_within_def)
  qed
  show "task_reply ?f = reply_within st requests timeout acts i"
  proof (cases "reply_within st requests timeout acts i")
    case None
    then show ?thesis using c f by (auto simp: reply_within_def)
  next
    case (Some r)
    then show ?thesis using c f by (cases r) (auto simp: reply_within_def)
  qed
  show "entry_of ?f = entry_for (reply_within st requests timeout acts i)"
  proof (cases "reply_within st requests timeout acts i")
    case None
    then show ?thesis using c f by (auto simp: reply_within_def entry_of_def)
  next
    case (Some r)
    then show ?thesis using c f by (cases r) (auto simp: reply_within_def entry_of_def)
  qed
qed

lemma rendezvous_entries:
  "fst (rendezvous st requests timeout now acts)
     = map (\<lambda>i. entry_for (reply_within st requests timeout acts i)) [0..<length requests]"
proof (rule nth_equalityI)
  show "length (fst (rendezvous st requests timeout now acts))
          = length (map (\<lambda>i. entry_for (reply_within st requests timeout acts i)) [0..<length requests])"
    by (simp add: rendezvous_eq)
next
  fix i assume "i < length (fst (rendezvous st requests timeout now acts))"
  then have i: "i < length requests" by (simp add: rendezvous_eq)
  have "fst (rendezvous st requests timeout now acts) ! i
          = entry_of (snd (rendezvous st requests timeout now acts) ! (length st + i))"
    using rendezvous_tasks(2)[OF i] .
  also have "\<dots> = entry_for (reply_within st requests timeout acts i)"
    using rendezvous_task_reply(3)[OF i] .
  finally show "fst (rendezvous st requests timeout now acts) ! i
          = map (\<lambda>i. entry_for (reply_within st requests timeout acts i)) [0..<length requests] ! i"
    using i by simp
qed

lemma entry_for_absent: "(entry_for x = Absence) = (x = None)"
  by (cases x) simp_all

lemma status_for_timed_out: "(status_for x = TimedOut) = (x = None)"
proof (cases x)
  case None
  then show ?thesis by simp
next
  case (Some r)
  then show ?thesis by (cases r) simp_all
qed

lemma rendezvous_counts:
  "length (filter (\<lambda>e. e \<noteq> Absence) (fst (rendezvous st requests timeout now acts)))
     = replies_within st requests timeout acts"
  "length (filter (\<lambda>e. e = Absence) (fst (rendezvous st requests timeout now acts)))
     = length requests - replies_within st requests timeout acts"
proof -
  let ?res = "fst (rendezvous st requests timeout now acts)"
  show k: "length (filter (\<lambda>e. e \<noteq> Absence) ?res) = replies_within st requests timeout acts"
    unfolding rendezvous_entries replies_within_def
    by (simp add: filter_map comp_def entry_for_absent)
  have "length (filter (\<lambda>e. e = Absence) ?res) + length (filter (\<lambda>e. e \<noteq> Absence) ?res)
          = length ?res"
    using sum_length_filter_compl[of "\<lambda>e. e = Absence" ?res] by simp
  moreover have "length ?res = length requests" by (simp add: rendezvous_entries)
  ultimately show "length (filter (\<lambda>e. e = Absence) ?res)
     = length requests - replies_within st requests timeout acts"
    using k by simp
qed

text \<open>
  C1. A call of the rendezvous with \<open>N\<close> requests and timeout \<open>T\<close> returns \<open>N\<close>
  entries, in the order of the requests: the \<open>i\<close>-th entry is the reply that the
  participant of the \<open>i\<close>-th request gives within \<open>T\<close>, or an absence if it gives none.
  The task created for the \<open>i\<close>-th request (same destination, same group) is in the store
  afterwards, in a terminal status: \<open>Replied\<close> or \<open>Errored\<close> with that reply, or
  \<open>TimedOut\<close> exactly if the entry is an absence. So if \<open>k\<close> participants reply within
  \<open>T\<close>, exactly \<open>k\<close> entries are replies or errors and \<open>N - k\<close> are absences, and \<open>k\<close>
  is also the number of tasks of the call that the store holds as replied.
\<close>

theorem rendezvous_one_entry_per_task:
  "length (fst (rendezvous st requests timeout now acts)) = length requests
   \<and> length (snd (rendezvous st requests timeout now acts)) = length st + length requests
   \<and> (\<forall>i < length requests.
         fst (rendezvous st requests timeout now acts) ! i
           = entry_for (reply_within st requests timeout acts i)
         \<and> fst (rendezvous st requests timeout now acts) ! i
           = entry_of (snd (rendezvous st requests timeout now acts) ! (length st + i))
         \<and> task_dst (snd (rendezvous st requests timeout now acts) ! (length st + i))
             = req_dst (requests ! i)
         \<and> task_group (snd (rendezvous st requests timeout now acts) ! (length st + i))
             = req_group (requests ! i)
         \<and> status (snd (rendezvous st requests timeout now acts) ! (length st + i))
             = status_for (reply_within st requests timeout acts i)
         \<and> task_reply (snd (rendezvous st requests timeout now acts) ! (length st + i))
             = reply_within st requests timeout acts i
         \<and> terminal (status (snd (rendezvous st requests timeout now acts) ! (length st + i)))
         \<and> ((fst (rendezvous st requests timeout now acts) ! i = Absence)
              = (status (snd (rendezvous st requests timeout now acts) ! (length st + i))
                   = TimedOut)))
   \<and> length (filter (\<lambda>e. e \<noteq> Absence) (fst (rendezvous st requests timeout now acts)))
       = replies_within st requests timeout acts
   \<and> length (filter (\<lambda>e. e = Absence) (fst (rendezvous st requests timeout now acts)))
       = length requests - replies_within st requests timeout acts
   \<and> replied_in (snd (rendezvous st requests timeout now acts))
         [length st..<length st + length requests]
       = replies_within st requests timeout acts"
proof -
  let ?R = "rendezvous st requests timeout now acts"
  have len: "length (fst ?R) = length requests" by (simp add: rendezvous_entries)
  have len2: "length (snd ?R) = length st + length requests"
    by (simp add: rendezvous_eq force_timeout_length poll_length)
  have per: "fst ?R ! i = entry_for (reply_within st requests timeout acts i)
         \<and> fst ?R ! i = entry_of (snd ?R ! (length st + i))
         \<and> task_dst (snd ?R ! (length st + i)) = req_dst (requests ! i)
         \<and> task_group (snd ?R ! (length st + i)) = req_group (requests ! i)
         \<and> status (snd ?R ! (length st + i)) = status_for (reply_within st requests timeout acts i)
         \<and> task_reply (snd ?R ! (length st + i)) = reply_within st requests timeout acts i
         \<and> terminal (status (snd ?R ! (length st + i)))
         \<and> ((fst ?R ! i = Absence) = (status (snd ?R ! (length st + i)) = TimedOut))"
    if i: "i < length requests" for i
  proof -
    have e: "fst ?R ! i = entry_for (reply_within st requests timeout acts i)"
      using i by (simp add: rendezvous_entries)
    have s: "status (snd ?R ! (length st + i)) = status_for (reply_within st requests timeout acts i)"
      using rendezvous_task_reply(1)[OF i] .
    have "(fst ?R ! i = Absence) = (status (snd ?R ! (length st + i)) = TimedOut)"
      unfolding e s by (simp add: entry_for_absent status_for_timed_out)
    then show ?thesis
      using e s rendezvous_task_reply(2)[OF i, of st timeout now acts]
        rendezvous_tasks(2,3,4,6)[OF i, of st timeout now acts] by simp
  qed
  have k: "length (filter (\<lambda>e. e \<noteq> Absence) (fst ?R)) = replies_within st requests timeout acts"
    by (rule rendezvous_counts(1))
  have a: "length (filter (\<lambda>e. e = Absence) (fst ?R))
             = length requests - replies_within st requests timeout acts"
    by (rule rendezvous_counts(2))
  have r: "replied_in (snd ?R) [length st..<length st + length requests]
             = replies_within st requests timeout acts"
    using rendezvous_reply_count[of st requests timeout now acts] k by simp
  show ?thesis
    using len len2 per k a r by blast
qed

theorem rendezvous_one_entry_per_task_witness:
  "map (reply_within [] r1_requests 6 r1_actions) [0, 1, 2]
     = [Some (Result ''a''), Some (Result ''b''), None]
   \<and> fst (rendezvous [] r1_requests 6 0 r1_actions)
     = [ReplyEntry (Result ''a''), ReplyEntry (Result ''b''), Absence]
   \<and> status (snd (rendezvous [] r1_requests 6 0 r1_actions) ! 2) = TimedOut
   \<and> replies_within [] r1_requests 6 r1_actions = 2
   \<and> length (filter (\<lambda>e. e = Absence) (fst (rendezvous [] r1_requests 6 0 r1_actions))) = 1"
proof -
  let ?R = "rendezvous [] r1_requests 6 0 r1_actions"
  note whole = rendezvous_one_entry_per_task [of "[]" r1_requests 6 0 r1_actions]
  have n: "length r1_requests = 3" by (simp add: r1_requests_def)
  have w: "map (reply_within [] r1_requests 6 r1_actions) [0, 1, 2]
             = [Some (Result ''a''), Some (Result ''b''), None]"
    by (simp add: reply_within_def r1_requests_def r1_actions_def)
  have w2: "reply_within [] r1_requests 6 r1_actions 2 = None" using w by simp
  have f: "fst ?R = [ReplyEntry (Result ''a''), ReplyEntry (Result ''b''), Absence]"
    by (simp add: r1_run)
  have two: "2 < length r1_requests" by (simp add: n)
  note per = whole [THEN conjunct2, THEN conjunct2, THEN conjunct1, rule_format, OF two]
  have l0: "length ([] :: task_store) + 2 = 2" by simp
  have "status (snd ?R ! 2) = status_for (reply_within [] r1_requests 6 r1_actions 2)"
    using per unfolding l0 by blast
  then have t: "status (snd ?R ! 2) = TimedOut" unfolding w2 by simp
  have a1: "length (filter (\<lambda>e. e = Absence) (fst ?R)) = 1" by (simp add: f)
  have "length (filter (\<lambda>e. e = Absence) (fst ?R))
          = length r1_requests - replies_within [] r1_requests 6 r1_actions"
    and "length (filter (\<lambda>e. e \<noteq> Absence) (fst ?R)) = replies_within [] r1_requests 6 r1_actions"
    using whole by blast+
  then have k: "replies_within [] r1_requests 6 r1_actions = 2" unfolding f by simp
  show ?thesis using w f t k a1 by blast
qed


end
